theory Spec2Isabelle
  imports Complex_Main "HOL-Library.Signed_Division"
begin

section \<open>Data model of heat.c\<close>

text \<open>
  The compile-time parameters of heat.c (its \<^verbatim>\<open>#define\<close> lines) are gathered in a
  record, so that every function of the model is read at the shipped values
  (\<open>heat_config\<close> below) as well as at the other settings the source documents
  (absorbing boundary conditions, the debugging clamp, another inside temperature, a
  smaller grid). C \<^verbatim>\<open>int\<close> indices are modelled by \<open>int\<close>: every index the program
  computes lies between \<open>-1\<close> and the grid size, so no machine overflow arises.
  C \<^verbatim>\<open>double\<close> values are modelled by \<open>real\<close>.
\<close>

datatype bc_policy = BC_DIRICHLET | BC_PERIODIC | BC_ABSORBING

record config =
  NX :: int
  NY :: int
  XMIN :: real
  XMAX :: real
  B_COND :: bc_policy
  FLOOR :: bool
  VMAX :: real
  SPEED :: real
  T_IN :: real
  T_OUT :: real
  N_FIELD_LINES :: int
  FIELD_LINE_FACTOR :: int

text \<open>The values heat.c is shipped with (lines 45-46, 53-54, 113-117, 121, 140-141, 152-153).\<close>

definition heat_config :: config where
  "heat_config =
     \<lparr> NX = 1280, NY = 720, XMIN = -2, XMAX = 2, B_COND = BC_DIRICHLET, FLOOR = False,
       VMAX = 10, SPEED = 0, T_IN = 0, T_OUT = 2,
       N_FIELD_LINES = 200, FIELD_LINE_FACTOR = 100 \<rparr>"

text \<open>
  What the C program leaves undefined is an error value of the model: an array access
  outside the allocated range, and the read of a variable or array cell that was never
  assigned.
\<close>

datatype error = Out_of_bounds | Uninitialised

text \<open>
  A grid \<^verbatim>\<open>T *a[NX]\<close> with rows of \<^verbatim>\<open>NY\<close> cells is a function of the two indices;
  every access goes through \<open>rd\<close> and \<open>wr\<close>, which check the indices against the
  allocated range as the C program does not.
\<close>

type_synonym 'a grid = "int \<Rightarrow> int \<Rightarrow> 'a"

definition in_grid :: "config \<Rightarrow> int \<Rightarrow> int \<Rightarrow> bool" where
  "in_grid cfg i j = (0 \<le> i \<and> i < NX cfg \<and> 0 \<le> j \<and> j < NY cfg)"

definition rd :: "config \<Rightarrow> 'a grid \<Rightarrow> int \<Rightarrow> int \<Rightarrow> error + 'a" where
  "rd cfg a i j = (if in_grid cfg i j then Inr (a i j) else Inl Out_of_bounds)"

definition wr :: "config \<Rightarrow> 'a grid \<Rightarrow> int \<Rightarrow> int \<Rightarrow> 'a \<Rightarrow> error + 'a grid" where
  "wr cfg a i j v =
     (if in_grid cfg i j then Inr (a(i := (a i)(j := v))) else Inl Out_of_bounds)"

text \<open>Reading a freshly allocated grid (\<^verbatim>\<open>malloc\<close>): a cell never written is \<open>None\<close>.\<close>

definition rd_init :: "config \<Rightarrow> 'a option grid \<Rightarrow> int \<Rightarrow> int \<Rightarrow> error + 'a" where
  "rd_init cfg a i j =
     (case rd cfg a i j of
        Inl e \<Rightarrow> Inl e
      | Inr None \<Rightarrow> Inl Uninitialised
      | Inr (Some v) \<Rightarrow> Inr v)"

text \<open>
  A counting loop \<^verbatim>\<open>for (x = a; x < b; x++) body\<close> whose body changes neither \<open>x\<close>
  nor the bound runs the body over \<open>[a..b-1]\<close> in order and stops at the first error.
\<close>

primrec for_each :: "'i list \<Rightarrow> ('i \<Rightarrow> 's \<Rightarrow> error + 's) \<Rightarrow> 's \<Rightarrow> error + 's" where
  "for_each [] body s = Inr s"
| "for_each (x # xs) body s =
     (case body x s of Inl e \<Rightarrow> Inl e | Inr s' \<Rightarrow> for_each xs body s')"

section \<open>evolve\_wave: one time step of the field (heat.c, lines 462-553)\<close>

text \<open>Lines 476-491: the four neighbour indices under the boundary-condition policy.
  The C operator \<^verbatim>\<open>%\<close> truncates towards zero: it is \<open>smod\<close>.\<close>

definition stencil_indices :: "config \<Rightarrow> int \<Rightarrow> int \<Rightarrow> int \<times> int \<times> int \<times> int" where
  "stencil_indices cfg i j =
     (if B_COND cfg = BC_DIRICHLET \<or> B_COND cfg = BC_ABSORBING then
        (let iplus = i + 1;
             iplus = (if iplus = NX cfg then NX cfg - 1 else iplus);
             iminus = i - 1;
             iminus = (if iminus = -1 then 0 else iminus);
             jplus = j + 1;
             jplus = (if jplus = NY cfg then NY cfg - 1 else jplus);
             jminus = j - 1;
             jminus = (if jminus = -1 then 0 else jminus)
         in (iplus, iminus, jplus, jminus))
      else
        (let iplus = (i + 1) smod NX cfg;
             iminus = (i - 1) smod NX cfg;
             iminus = (if iminus < 0 then iminus + NX cfg else iminus);
             jplus = (j + 1) smod NY cfg;
             jminus = (j - 1) smod NY cfg;
             jminus = (if jminus < 0 then jminus + NY cfg else jminus)
         in (iplus, iminus, jplus, jminus)))"

text \<open>
  Lines 493-529: the value assigned to \<^verbatim>\<open>newphi[i][j]\<close>; \<open>Inr None\<close> when no branch
  assigns one. In the bulk branch of the absorbing policy (line 507) the program reads
  the local variable \<^verbatim>\<open>delta2\<close>, which no statement of the function assigns.
  \<open>intstep\<close> and \<open>intstep1\<close> are the global variables of lines 192-193.
\<close>

definition new_value ::
  "config \<Rightarrow> real \<Rightarrow> real \<Rightarrow> real grid \<Rightarrow> int \<Rightarrow> int \<Rightarrow> error + real option" where
  "new_value cfg intstep intstep1 phi i j =
     (case stencil_indices cfg i j of (iplus, iminus, jplus, jminus) \<Rightarrow>
      case rd cfg phi iplus j of Inl e \<Rightarrow> Inl e | Inr pe \<Rightarrow>
      case rd cfg phi iminus j of Inl e \<Rightarrow> Inl e | Inr pw \<Rightarrow>
      case rd cfg phi i jplus of Inl e \<Rightarrow> Inl e | Inr pn \<Rightarrow>
      case rd cfg phi i jminus of Inl e \<Rightarrow> Inl e | Inr ps \<Rightarrow>
      case rd cfg phi i j of Inl e \<Rightarrow> Inl e | Inr x \<Rightarrow>
      (let delta1 = pe + pw + pn + ps - 4 * x in
       if B_COND cfg \<noteq> BC_ABSORBING then
         Inr (Some (x + intstep * (delta1 - SPEED cfg * (pe - x))))
       else if 0 < i \<and> i < NX cfg - 1 \<and> 0 < j \<and> j < NY cfg - 1 then
         Inl Uninitialised
       else if i = NX cfg - 1 then
         (case rd cfg phi (i - 1) j of Inl e \<Rightarrow> Inl e
          | Inr p \<Rightarrow> Inr (Some (x - intstep1 * (x - p))))
       else if j = NY cfg - 1 then
         (case rd cfg phi i (j - 1) of Inl e \<Rightarrow> Inl e
          | Inr p \<Rightarrow> Inr (Some (x - intstep1 * (x - p))))
       else if i = 0 then
         (case rd cfg phi 1 j of Inl e \<Rightarrow> Inl e
          | Inr p \<Rightarrow> Inr (Some (x - intstep1 * (x - p))))
       else if j = 0 then
         (case rd cfg phi i 1 of Inl e \<Rightarrow> Inl e
          | Inr p \<Rightarrow> Inr (Some (x - intstep1 * (x - p))))
       else Inr None))"

text \<open>Lines 532-536: the debugging clamp. It tests \<^verbatim>\<open>newphi[i][j]\<close> and assigns to
  \<^verbatim>\<open>phi[i][j]\<close>.\<close>

definition floor_clamp ::
  "config \<Rightarrow> int \<Rightarrow> int \<Rightarrow> real grid \<times> real option grid \<Rightarrow> error + real grid \<times> real option grid"
  where
  "floor_clamp cfg i j = (\<lambda>(phi, newphi).
     if FLOOR cfg then
       (case rd_init cfg newphi i j of Inl e \<Rightarrow> Inl e | Inr v \<Rightarrow>
        case (if v > VMAX cfg then wr cfg phi i j (VMAX cfg) else Inr phi) of
          Inl e \<Rightarrow> Inl e
        | Inr phi1 \<Rightarrow>
        case (if v < - VMAX cfg then wr cfg phi1 i j (- VMAX cfg) else Inr phi1) of
          Inl e \<Rightarrow> Inl e
        | Inr phi2 \<Rightarrow> Inr (phi2, newphi))
     else Inr (phi, newphi))"

text \<open>Lines 474-537: the body of the first pair of loops at cell \<open>(i, j)\<close>.\<close>

definition evolve_cell ::
  "config \<Rightarrow> real \<Rightarrow> real \<Rightarrow> int grid \<Rightarrow> int \<Rightarrow> int \<Rightarrow>
   real grid \<times> real option grid \<Rightarrow> error + real grid \<times> real option grid" where
  "evolve_cell cfg intstep intstep1 xy_in i j = (\<lambda>(phi, newphi).
     case rd cfg xy_in i j of Inl e \<Rightarrow> Inl e | Inr s \<Rightarrow>
     if s = 1 then
       (case new_value cfg intstep intstep1 phi i j of Inl e \<Rightarrow> Inl e | Inr r \<Rightarrow>
        case (case r of None \<Rightarrow> Inr newphi | Some v \<Rightarrow> wr cfg newphi i j (Some v)) of
          Inl e \<Rightarrow> Inl e
        | Inr newphi1 \<Rightarrow> floor_clamp cfg i j (phi, newphi1))
     else Inr (phi, newphi))"

text \<open>Lines 541-545: the body of the second pair of loops.\<close>

definition commit_cell ::
  "config \<Rightarrow> int grid \<Rightarrow> real option grid \<Rightarrow> int \<Rightarrow> int \<Rightarrow> real grid \<Rightarrow> error + real grid"
  where
  "commit_cell cfg xy_in newphi i j phi =
     (case rd cfg xy_in i j of Inl e \<Rightarrow> Inl e | Inr s \<Rightarrow>
      if s = 1 then
        (case rd_init cfg newphi i j of Inl e \<Rightarrow> Inl e | Inr v \<Rightarrow> wr cfg phi i j v)
      else Inr phi)"

text \<open>The function: \<^verbatim>\<open>newphi\<close> is allocated unassigned, the first loops fill it from
  \<^verbatim>\<open>phi\<close>, the second loops copy it back. The loops run in their sequential order.\<close>

definition evolve_wave ::
  "config \<Rightarrow> real \<Rightarrow> real \<Rightarrow> real grid \<Rightarrow> int grid \<Rightarrow> error + real grid" where
  "evolve_wave cfg intstep intstep1 phi xy_in =
     (case for_each [0..NX cfg - 1]
             (\<lambda>i. for_each [0..NY cfg - 1] (evolve_cell cfg intstep intstep1 xy_in i))
             (phi, \<lambda>i j. None) of
        Inl e \<Rightarrow> Inl e
      | Inr (phi1, newphi) \<Rightarrow>
          for_each [0..NX cfg - 1]
            (\<lambda>i. for_each [0..NY cfg - 1] (commit_cell cfg xy_in newphi i)) phi1)"

section \<open>compute\_gradient (heat.c, lines 257-276)\<close>

text \<open>The body of the loops at cell \<open>(i, j)\<close>. Line 271 compares \<^verbatim>\<open>jplus\<close> with
  \<^verbatim>\<open>NX\<close>. The two result grids are the caller's, passed in and returned.\<close>

definition gradient_cell ::
  "config \<Rightarrow> real grid \<Rightarrow> real \<Rightarrow> int \<Rightarrow> int \<Rightarrow> real grid \<times> real grid \<Rightarrow> error + real grid \<times> real grid"
  where
  "gradient_cell cfg phi dx i j = (\<lambda>(nablax, nablay).
     let iplus = i + 1;
         iplus = (if iplus = NX cfg then NX cfg - 1 else iplus);
         iminus = i - 1;
         iminus = (if iminus = -1 then 0 else iminus);
         jplus = j + 1;
         jplus = (if jplus = NX cfg then NY cfg - 1 else jplus);
         jminus = j - 1;
         jminus = (if jminus = -1 then 0 else jminus)
     in
     case rd cfg phi iplus j of Inl e \<Rightarrow> Inl e | Inr pe \<Rightarrow>
     case rd cfg phi iminus j of Inl e \<Rightarrow> Inl e | Inr pw \<Rightarrow>
     case wr cfg nablax i j ((pe - pw) / dx) of Inl e \<Rightarrow> Inl e | Inr nablax1 \<Rightarrow>
     case rd cfg phi i jplus of Inl e \<Rightarrow> Inl e | Inr pn \<Rightarrow>
     case rd cfg phi i jminus of Inl e \<Rightarrow> Inl e | Inr ps \<Rightarrow>
     case wr cfg nablay i j ((pn - ps) / dx) of Inl e \<Rightarrow> Inl e | Inr nablay1 \<Rightarrow>
     Inr (nablax1, nablay1))"

definition compute_gradient ::
  "config \<Rightarrow> real grid \<Rightarrow> real grid \<Rightarrow> real grid \<Rightarrow> error + real grid \<times> real grid" where
  "compute_gradient cfg phi nablax nablay =
     (let dx = (XMAX cfg - XMIN cfg) / real_of_int (NX cfg) in
      for_each [0..NX cfg - 1]
        (\<lambda>i. for_each [0..NY cfg - 1] (gradient_cell cfg phi dx i)) (nablax, nablay))"

section \<open>compute\_variance (heat.c, lines 558-576)\<close>

text \<open>The state of the loops is the pair of the counter \<^verbatim>\<open>n\<close> and the running sum
  \<^verbatim>\<open>variance\<close>. Both loops start at index 1 (lines 565-566).\<close>

definition variance_cell ::
  "config \<Rightarrow> real grid \<Rightarrow> int grid \<Rightarrow> int \<Rightarrow> int \<Rightarrow> int \<times> real \<Rightarrow> error + int \<times> real" where
  "variance_cell cfg phi xy_in i j = (\<lambda>(n, variance).
     case rd cfg xy_in i j of Inl e \<Rightarrow> Inl e | Inr s \<Rightarrow>
     if s \<noteq> 0 then
       (case rd cfg phi i j of Inl e \<Rightarrow> Inl e
        | Inr x \<Rightarrow> Inr (n + 1, variance + x * x))
     else Inr (n, variance))"

definition compute_variance :: "config \<Rightarrow> real grid \<Rightarrow> int grid \<Rightarrow> error + real" where
  "compute_variance cfg phi xy_in =
     (case for_each [1..NX cfg - 1]
             (\<lambda>i. for_each [1..NY cfg - 1] (variance_cell cfg phi xy_in i)) (0, 0) of
        Inl e \<Rightarrow> Inl e
      | Inr (n, variance) \<Rightarrow>
          (let n = (if n = 0 then 1 else n) in Inr (variance / real_of_int n)))"

section \<open>init\_gaussian and init\_julia\_set (heat.c, lines 197-249)\<close>

text \<open>
  \<^verbatim>\<open>ij_to_xy\<close> and \<^verbatim>\<open>xy_in_billiard\<close> are functions of sub\_wave.c, which is not part of
  the sources at hand: they are parameters of the model. \<open>ij_to_xy i j\<close> is the pair the
  C function writes into \<^verbatim>\<open>xy\<close>; \<open>xy_in_billiard x y\<close> is the status the C function
  returns (it reads the Julia parameters \<^verbatim>\<open>julia_x\<close>, \<^verbatim>\<open>julia_y\<close>, which are fixed
  during one call of the initialisers), taken to fit the \<^verbatim>\<open>short int\<close> cell it is
  stored in. \<^verbatim>\<open>pow\<close> with a positive base is \<open>powr\<close>.
\<close>

definition gaussian_cell ::
  "config \<Rightarrow> (int \<Rightarrow> int \<Rightarrow> real \<times> real) \<Rightarrow> (real \<Rightarrow> real \<Rightarrow> int) \<Rightarrow>
   real \<Rightarrow> real \<Rightarrow> real \<Rightarrow> real \<Rightarrow> real \<Rightarrow> int \<Rightarrow> int \<Rightarrow>
   real grid \<times> int grid \<Rightarrow> error + real grid \<times> int grid" where
  "gaussian_cell cfg ij_to_xy xy_in_billiard x y mean amplitude scalex i j = (\<lambda>(phi, xy_in).
     let xy = ij_to_xy i j; scale2 = scalex * scalex in
     case wr cfg xy_in i j (xy_in_billiard (fst xy) (snd xy)) of Inl e \<Rightarrow> Inl e
     | Inr xy_in1 \<Rightarrow>
     case rd cfg xy_in1 i j of Inl e \<Rightarrow> Inl e | Inr in' \<Rightarrow>
     case
       (if in' = 1 then
          (let dist2 = (fst xy - x) * (fst xy - x) + (snd xy - y) * (snd xy - y);
               module = amplitude * exp (- dist2 / scale2);
               module = (if module < 1 / 10 ^ 15 then 1 / 10 ^ 15 else module)
           in wr cfg phi i j (mean + module / scalex))
        else if in' \<ge> 2 then wr cfg phi i j (T_IN cfg * (3 / 4) powr real_of_int (in' - 2))
        else wr cfg phi i j (T_OUT cfg)) of
       Inl e \<Rightarrow> Inl e
     | Inr phi1 \<Rightarrow> Inr (phi1, xy_in1))"

definition init_gaussian ::
  "config \<Rightarrow> (int \<Rightarrow> int \<Rightarrow> real \<times> real) \<Rightarrow> (real \<Rightarrow> real \<Rightarrow> int) \<Rightarrow>
   real \<Rightarrow> real \<Rightarrow> real \<Rightarrow> real \<Rightarrow> real \<Rightarrow> real grid \<Rightarrow> int grid \<Rightarrow>
   error + real grid \<times> int grid" where
  "init_gaussian cfg ij_to_xy xy_in_billiard x y mean amplitude scalex phi xy_in =
     for_each [0..NX cfg - 1]
       (\<lambda>i. for_each [0..NY cfg - 1]
          (gaussian_cell cfg ij_to_xy xy_in_billiard x y mean amplitude scalex i)) (phi, xy_in)"

definition julia_cell ::
  "config \<Rightarrow> (int \<Rightarrow> int \<Rightarrow> real \<times> real) \<Rightarrow> (real \<Rightarrow> real \<Rightarrow> int) \<Rightarrow> int \<Rightarrow> int \<Rightarrow>
   real grid \<times> int grid \<Rightarrow> error + real grid \<times> int grid" where
  "julia_cell cfg ij_to_xy xy_in_billiard i j = (\<lambda>(phi, xy_in).
     let xy = ij_to_xy i j in
     case wr cfg xy_in i j (xy_in_billiard (fst xy) (snd xy)) of Inl e \<Rightarrow> Inl e
     | Inr xy_in1 \<Rightarrow>
     case rd cfg xy_in1 i j of Inl e \<Rightarrow> Inl e | Inr in' \<Rightarrow>
     case (if in' \<ge> 2 then wr cfg phi i j (T_IN cfg) else Inr phi) of
       Inl e \<Rightarrow> Inl e
     | Inr phi1 \<Rightarrow> Inr (phi1, xy_in1))"

definition init_julia_set ::
  "config \<Rightarrow> (int \<Rightarrow> int \<Rightarrow> real \<times> real) \<Rightarrow> (real \<Rightarrow> real \<Rightarrow> int) \<Rightarrow>
   real grid \<Rightarrow> int grid \<Rightarrow> error + real grid \<times> int grid" where
  "init_julia_set cfg ij_to_xy xy_in_billiard phi xy_in =
     for_each [0..NX cfg - 1]
       (\<lambda>i. for_each [0..NY cfg - 1] (julia_cell cfg ij_to_xy xy_in_billiard i)) (phi, xy_in)"

section \<open>draw\_field\_line (heat.c, lines 278-343)\<close>

text \<open>
  \<^verbatim>\<open>xy_to_ij\<close> (sub\_wave.c) is a parameter: any function from a point to a pair of
  integers. Lines 303-308: the cell of the current point, clamped.
\<close>

definition trace_index :: "config \<Rightarrow> (real \<Rightarrow> real \<Rightarrow> int \<times> int) \<Rightarrow> real \<Rightarrow> real \<Rightarrow> int \<times> int" where
  "trace_index cfg xy_to_ij x1 y1 =
     (let ij = xy_to_ij x1 y1;
          ij0 = fst ij; ij1 = snd ij;
          ij0 = (if ij0 < 0 then 0 else ij0);
          ij0 = (if ij0 > NX cfg - 1 then NX cfg - 1 else ij0);
          ij1 = (if ij1 < 0 then 0 else ij1);
          ij1 = (if ij1 > NY cfg - 1 then NY cfg - 1 else ij1)
      in (ij0, ij1))"

text \<open>Lines 303-330: one iteration of the loop, from the point \<open>(x1, y1)\<close> to the next
  point and the flag \<^verbatim>\<open>cont\<close>.\<close>

definition trace_step ::
  "config \<Rightarrow> (real \<Rightarrow> real \<Rightarrow> int \<times> int) \<Rightarrow> int grid \<Rightarrow> real grid \<Rightarrow> real grid \<Rightarrow> real \<Rightarrow>
   real \<times> real \<Rightarrow> error + (real \<times> real) \<times> bool" where
  "trace_step cfg xy_to_ij xy_in nablax nablay delta = (\<lambda>(x1, y1).
     case trace_index cfg xy_to_ij x1 y1 of (ij0, ij1) \<Rightarrow>
     case rd cfg nablax ij0 ij1 of Inl e \<Rightarrow> Inl e | Inr nabx \<Rightarrow>
     case rd cfg nablay ij0 ij1 of Inl e \<Rightarrow> Inl e | Inr naby \<Rightarrow>
     (let norm2 = nabx * nabx + naby * naby;
          (p, cont) =
            (if norm2 > 1 / 10 ^ 14 then
               (let norm2 = (if norm2 < 1 / 10 ^ 9 then 1 / 10 ^ 9 else norm2);
                    norm = sqrt norm2
                in ((x1 + delta * nabx / norm, y1 + delta * naby / norm), True))
             else ((x1, y1), False))
      in
      case rd cfg xy_in ij0 ij1 of Inl e \<Rightarrow> Inl e
      | Inr s \<Rightarrow> Inr (p, (if s = 0 then False else cont))))"

text \<open>Lines 300-341: the loop \<^verbatim>\<open>while ((cont)&&(i < nsteps))\<close>, by recursion on the
  number of steps left. It returns the vertices handed to OpenGL, as points of the plane
  (before \<^verbatim>\<open>xy_to_pos\<close>).\<close>

fun trace_loop ::
  "config \<Rightarrow> (real \<Rightarrow> real \<Rightarrow> int \<times> int) \<Rightarrow> int grid \<Rightarrow> real grid \<Rightarrow> real grid \<Rightarrow> real \<Rightarrow>
   nat \<Rightarrow> real \<times> real \<Rightarrow> error + (real \<times> real) list" where
  "trace_loop cfg xy_to_ij xy_in nablax nablay delta 0 p = Inr []"
| "trace_loop cfg xy_to_ij xy_in nablax nablay delta (Suc n) p =
     (case trace_step cfg xy_to_ij xy_in nablax nablay delta p of
        Inl e \<Rightarrow> Inl e
      | Inr (p', cont) \<Rightarrow>
          if cont then
            (case trace_loop cfg xy_to_ij xy_in nablax nablay delta n p' of
               Inl e \<Rightarrow> Inl e
             | Inr vs \<Rightarrow> Inr (p' # vs))
          else Inr [p'])"

definition draw_field_line ::
  "config \<Rightarrow> (real \<Rightarrow> real \<Rightarrow> int \<times> int) \<Rightarrow> real \<Rightarrow> real \<Rightarrow> int grid \<Rightarrow> real grid \<Rightarrow> real grid \<Rightarrow>
   real \<Rightarrow> int \<Rightarrow> error + (real \<times> real) list" where
  "draw_field_line cfg xy_to_ij x y xy_in nablax nablay delta nsteps =
     (case trace_loop cfg xy_to_ij xy_in nablax nablay delta (nat nsteps) (x, y) of
        Inl e \<Rightarrow> Inl e
      | Inr vs \<Rightarrow> Inr ((x, y) # vs))"

section \<open>The field-line seeding pass of draw\_wave (heat.c, lines 423-450)\<close>

text \<open>
  The static arrays of line 355: \<^verbatim>\<open>linex\<close>, \<^verbatim>\<open>liney\<close> and \<^verbatim>\<open>distance\<close> have
  \<^verbatim>\<open>N_FIELD_LINES*FIELD_LINE_FACTOR\<close> cells, \<^verbatim>\<open>integral\<close> has one more. What the
  first call stores in the first three (lines 368-393: the samples of the reference
  ellipse and the distances between them) is an input of the model, and so is what
  \<^verbatim>\<open>integral\<close> holds on entry.
\<close>

record seed_arrays =
  linex :: "int \<Rightarrow> real"
  liney :: "int \<Rightarrow> real"
  distance :: "int \<Rightarrow> real"
  integral :: "int \<Rightarrow> real"

definition n_samples :: "config \<Rightarrow> int" where
  "n_samples cfg = N_FIELD_LINES cfg * FIELD_LINE_FACTOR cfg"

definition rd1 :: "int \<Rightarrow> (int \<Rightarrow> 'a) \<Rightarrow> int \<Rightarrow> error + 'a" where
  "rd1 n a i = (if 0 \<le> i \<and> i < n then Inr (a i) else Inl Out_of_bounds)"

definition wr1 :: "int \<Rightarrow> (int \<Rightarrow> 'a) \<Rightarrow> int \<Rightarrow> 'a \<Rightarrow> error + (int \<Rightarrow> 'a)" where
  "wr1 n a i v = (if 0 \<le> i \<and> i < n then Inr (a(i := v)) else Inl Out_of_bounds)"

text \<open>Lines 428-431: the body of the loop that fills \<^verbatim>\<open>integral\<close>. \<^verbatim>\<open>module2\<close>
  (sub\_wave.c) is a parameter.\<close>

definition integral_cell ::
  "config \<Rightarrow> (real \<Rightarrow> real \<Rightarrow> int \<times> int) \<Rightarrow> (real \<Rightarrow> real \<Rightarrow> real) \<Rightarrow> real grid \<Rightarrow> real grid \<Rightarrow>
   seed_arrays \<Rightarrow> int \<Rightarrow> (int \<Rightarrow> real) \<Rightarrow> error + (int \<Rightarrow> real)" where
  "integral_cell cfg xy_to_ij module2 nablax nablay sa i integ =
     (case rd1 (n_samples cfg) (linex sa) i of Inl e \<Rightarrow> Inl e | Inr lx \<Rightarrow>
      case rd1 (n_samples cfg) (liney sa) i of Inl e \<Rightarrow> Inl e | Inr ly \<Rightarrow>
      case xy_to_ij lx ly of (ij0, ij1) \<Rightarrow>
      case rd cfg nablax ij0 ij1 of Inl e \<Rightarrow> Inl e | Inr gx \<Rightarrow>
      case rd cfg nablay ij0 ij1 of Inl e \<Rightarrow> Inl e | Inr gy \<Rightarrow>
      case rd1 (n_samples cfg) (distance sa) i of Inl e \<Rightarrow> Inl e | Inr d \<Rightarrow>
      (let intens = module2 gx gy * d in
       if i > 0 then
         (case rd1 (n_samples cfg + 1) integ (i - 1) of Inl e \<Rightarrow> Inl e
          | Inr prev \<Rightarrow> wr1 (n_samples cfg + 1) integ i (prev + intens))
       else wr1 (n_samples cfg + 1) integ i intens))"

text \<open>Line 444: \<^verbatim>\<open>while ((integral[i] <= j*deltaintens)&&(i < N_FIELD_LINES*FIELD_LINE_FACTOR)) i++;\<close>
  The left operand of \<^verbatim>\<open>&&\<close> is evaluated first.\<close>

function seek_seed :: "int \<Rightarrow> (int \<Rightarrow> real) \<Rightarrow> real \<Rightarrow> int \<Rightarrow> error + int" where
  "seek_seed m integ target i =
     (case rd1 (m + 1) integ i of
        Inl e \<Rightarrow> Inl e
      | Inr v \<Rightarrow> if v \<le> target \<and> i < m then seek_seed m integ target (i + 1) else Inr i)"
  by pat_completeness auto
termination
  by (relation "measure (\<lambda>(m, integ, target, i). nat (m - i))") auto

declare seek_seed.simps [simp del]

text \<open>Lines 444-447: the body of the loop over \<^verbatim>\<open>j\<close>. Its state is the index \<^verbatim>\<open>i\<close>,
  the counter and the lines drawn so far, each with the index of its seed.\<close>

definition seed_step ::
  "config \<Rightarrow> (real \<Rightarrow> real \<Rightarrow> int \<times> int) \<Rightarrow> int grid \<Rightarrow> real grid \<Rightarrow> real grid \<Rightarrow>
   seed_arrays \<Rightarrow> (int \<Rightarrow> real) \<Rightarrow> real \<Rightarrow> int \<Rightarrow>
   int \<times> int \<times> (int \<times> (real \<times> real) list) list \<Rightarrow>
   error + int \<times> int \<times> (int \<times> (real \<times> real) list) list" where
  "seed_step cfg xy_to_ij xy_in nablax nablay sa integ deltaintens j = (\<lambda>(i, counter, ls).
     case seek_seed (n_samples cfg) integ (real_of_int j * deltaintens) i of
       Inl e \<Rightarrow> Inl e
     | Inr i' \<Rightarrow>
     case rd1 (n_samples cfg) (linex sa) i' of Inl e \<Rightarrow> Inl e | Inr x \<Rightarrow>
     case rd1 (n_samples cfg) (liney sa) i' of Inl e \<Rightarrow> Inl e | Inr y \<Rightarrow>
     case draw_field_line cfg xy_to_ij x y xy_in nablax nablay (2 / 10 ^ 5) 100000 of
       Inl e \<Rightarrow> Inl e
     | Inr l \<Rightarrow> Inr (i', counter + 1, ls @ [(i', l)]))"

text \<open>Lines 426-449. The result is the number of lines of the program's last
  \<^verbatim>\<open>printf\<close> (\<^verbatim>\<open>counter\<close> counts the lines of the loop, not the first one) and
  the lines drawn, each with the index of its seed.\<close>

definition draw_field_lines ::
  "config \<Rightarrow> (real \<Rightarrow> real \<Rightarrow> int \<times> int) \<Rightarrow> (real \<Rightarrow> real \<Rightarrow> real) \<Rightarrow> int grid \<Rightarrow>
   real grid \<Rightarrow> real grid \<Rightarrow> seed_arrays \<Rightarrow> error + int \<times> (int \<times> (real \<times> real) list) list" where
  "draw_field_lines cfg xy_to_ij module2 xy_in nablax nablay sa =
     (case for_each [0..n_samples cfg - 1]
             (integral_cell cfg xy_to_ij module2 nablax nablay sa) (integral sa) of
        Inl e \<Rightarrow> Inl e
      | Inr integ \<Rightarrow>
      case rd1 (n_samples cfg + 1) integ (n_samples cfg - 1) of Inl e \<Rightarrow> Inl e
      | Inr tot \<Rightarrow>
      (let deltaintens = tot / real_of_int (N_FIELD_LINES cfg) in
       case rd1 (n_samples cfg) (linex sa) 0 of Inl e \<Rightarrow> Inl e | Inr x0 \<Rightarrow>
       case rd1 (n_samples cfg) (liney sa) 0 of Inl e \<Rightarrow> Inl e | Inr y0 \<Rightarrow>
       case draw_field_line cfg xy_to_ij x0 y0 xy_in nablax nablay (2 / 10 ^ 5) 100000 of
         Inl e \<Rightarrow> Inl e
       | Inr l0 \<Rightarrow>
       case for_each [1..N_FIELD_LINES cfg]
              (seed_step cfg xy_to_ij xy_in nablax nablay sa integ deltaintens)
              (0, 0, [(0, l0)]) of
         Inl e \<Rightarrow> Inl e
       | Inr (i, counter, ls) \<Rightarrow> Inr (counter, ls)))"

section \<open>Auxiliary definitions: intermediate states of the loops, test inputs\<close>

text \<open>The grid \<^verbatim>\<open>newphi\<close> once the cells of \<open>D\<close> are done, and the field once the
  cells of \<open>D\<close> are copied back, when the cell \<open>(i, j)\<close> gets the value \<open>val i j\<close>.\<close>

definition filled :: "int grid \<Rightarrow> real grid \<Rightarrow> (int \<times> int) set \<Rightarrow> real option grid" where
  "filled xy_in val D = (\<lambda>i j. if (i, j) \<in> D \<and> xy_in i j = 1 then Some (val i j) else None)"

definition committed :: "int grid \<Rightarrow> real grid \<Rightarrow> real grid \<Rightarrow> (int \<times> int) set \<Rightarrow> real grid" where
  "committed xy_in val phi D = (\<lambda>i j. if (i, j) \<in> D \<and> xy_in i j = 1 then val i j else phi i j)"

text \<open>Inputs on which the theorems are evaluated.\<close>

definition demo_config :: config where
  "demo_config = heat_config \<lparr> NX := 2, NY := 2 \<rparr>"

definition demo_phi :: "real grid" where
  "demo_phi = (\<lambda>i j. real_of_int (i + 2 * j))"

definition demo_xy_in :: "int grid" where
  "demo_xy_in = (\<lambda>i j. if i = 0 \<and> j = 0 then 1 else if i = 1 \<and> j = 1 then 0 else 2)"

definition absorbing_config :: config where
  "absorbing_config = heat_config \<lparr> NX := 3, NY := 3, B_COND := BC_ABSORBING \<rparr>"

definition clamp_config :: config where
  "clamp_config = heat_config \<lparr> FLOOR := True \<rparr>"

text \<open>The status \<^verbatim>\<open>xy_in_billiard\<close> gives the cell \<open>(i, j)\<close>, and the two grids of
  \<open>init_julia_set\<close> once the cells of \<open>D\<close> are done.\<close>

definition status_of :: "(int \<Rightarrow> int \<Rightarrow> real \<times> real) \<Rightarrow> (real \<Rightarrow> real \<Rightarrow> int) \<Rightarrow> int grid" where
  "status_of ij_to_xy xy_in_billiard =
     (\<lambda>i j. xy_in_billiard (fst (ij_to_xy i j)) (snd (ij_to_xy i j)))"

definition julia_state ::
  "config \<Rightarrow> int grid \<Rightarrow> real grid \<Rightarrow> int grid \<Rightarrow> (int \<times> int) set \<Rightarrow> real grid \<times> int grid" where
  "julia_state cfg st phi xy_in D =
     (\<lambda>i j. if (i, j) \<in> D \<and> 2 \<le> st i j then T_IN cfg else phi i j,
      \<lambda>i j. if (i, j) \<in> D then st i j else xy_in i j)"

definition warm_config :: config where
  "warm_config = heat_config \<lparr> NX := 2, NY := 2, T_IN := 2 \<rparr>"

definition demo_ij_to_xy :: "int \<Rightarrow> int \<Rightarrow> real \<times> real" where
  "demo_ij_to_xy = (\<lambda>i j. (real_of_int i, real_of_int j))"

definition demo_xy_in_billiard :: "real \<Rightarrow> real \<Rightarrow> int" where
  "demo_xy_in_billiard = (\<lambda>x y. if x + y < 1 then 1 else if x + y < 2 then 0 else 3)"

definition far_xy_to_ij :: "real \<Rightarrow> real \<Rightarrow> int \<times> int" where
  "far_xy_to_ij = (\<lambda>x y. (\<lfloor>1000 * x\<rfloor>, \<lfloor>1000 * y\<rfloor> - 5000))"

definition zero_seed_arrays :: seed_arrays where
  "zero_seed_arrays =
     \<lparr> linex = (\<lambda>k. 0), liney = (\<lambda>k. 0), distance = (\<lambda>k. 1 / 1000), integral = (\<lambda>k. 0) \<rparr>"

definition centre_xy_to_ij :: "real \<Rightarrow> real \<Rightarrow> int \<times> int" where
  "centre_xy_to_ij = (\<lambda>x y. (640, 360))"

text \<open>The Euclidean norm, for the parameter \<^verbatim>\<open>module2\<close>.\<close>

definition norm_module2 :: "real \<Rightarrow> real \<Rightarrow> real" where
  "norm_module2 x y = sqrt (x * x + y * y)"

text \<open>The cells of \<^verbatim>\<open>integral\<close> below index \<open>a\<close> never decrease.\<close>

definition nondecreasing_below :: "int \<Rightarrow> (int \<Rightarrow> real) \<Rightarrow> bool" where
  "nondecreasing_below a integ = (\<forall>k l. 0 \<le> k \<and> k \<le> l \<and> l < a \<longrightarrow> integ k \<le> integ l)"

definition rim_phi :: "real grid" where
  "rim_phi = (\<lambda>i j. if i = 0 \<or> j = 0 then 3 else 0)"

section \<open>Verification\<close>

lemma for_each_rule:
  assumes "I S s"
    and "\<And>x S s. x \<in> set xs \<Longrightarrow> I S s \<Longrightarrow> \<exists>s'. body x s = Inr s' \<and> I (insert x S) s'"
  shows "\<exists>s'. for_each xs body s = Inr s' \<and> I (S \<union> set xs) s'"
  using assms
proof (induction xs arbitrary: S s)
  case Nil
  then show ?case by simp
next
  case (Cons x xs)
  from Cons.prems obtain s1 where s1: "body x s = Inr s1" "I (insert x S) s1"
    by (meson list.set_intros(1))
  have "\<exists>s'. for_each xs body s1 = Inr s' \<and> I (insert x S \<union> set xs) s'"
    by (rule Cons.IH [OF s1(2)]) (use Cons.prems(2) in auto)
  with s1(1) show ?case by simp
qed

lemma for_each_inv:
  assumes "for_each xs body s = Inr s'" and "P s"
    and "\<And>x s s'. x \<in> set xs \<Longrightarrow> P s \<Longrightarrow> body x s = Inr s' \<Longrightarrow> P s'"
  shows "P s'"
  using assms
proof (induction xs arbitrary: s)
  case Nil
  then show ?case by simp
next
  case (Cons x xs)
  from Cons.prems(1) obtain s1 where s1: "body x s = Inr s1" "for_each xs body s1 = Inr s'"
    by (auto split: sum.splits)
  have "P s1" using Cons.prems(2,3) s1(1) by auto
  then show ?case using Cons.IH [OF s1(2)] Cons.prems(3) by auto
qed

lemma evolve_cell_step:
  assumes "in_grid cfg i j"
    and "xy_in i j = 1 \<Longrightarrow> new_value cfg a b phi i j = Inr (Some (val i j))"
    and "FLOOR cfg \<Longrightarrow> xy_in i j = 1 \<Longrightarrow> - VMAX cfg \<le> val i j \<and> val i j \<le> VMAX cfg"
  shows "evolve_cell cfg a b xy_in i j (phi, filled xy_in val D)
         = Inr (phi, filled xy_in val (insert (i, j) D))"
proof (cases "xy_in i j = 1")
  case True
  let ?n = "filled xy_in val (insert (i, j) D)"
  have n: "(filled xy_in val D)(i := (filled xy_in val D i)(j := Some (val i j))) = ?n"
    using True by (auto simp: filled_def fun_eq_iff)
  have "rd_init cfg ?n i j = Inr (val i j)"
    using assms(1) True by (simp add: rd_init_def rd_def filled_def)
  then have "floor_clamp cfg i j (phi, ?n) = Inr (phi, ?n)"
    using assms(3) True by (cases "FLOOR cfg") (auto simp: floor_clamp_def)
  then show ?thesis
    using assms(1,2) True n by (simp add: evolve_cell_def rd_def wr_def)
next
  case False
  have "filled xy_in val (insert (i, j) D) = filled xy_in val D"
    using False by (auto simp: filled_def fun_eq_iff)
  then show ?thesis
    using assms False by (simp add: evolve_cell_def rd_def)
qed

lemma evolve_row:
  assumes "0 \<le> i" and "i < NX cfg"
    and "\<And>j. in_grid cfg i j \<Longrightarrow> xy_in i j = 1 \<Longrightarrow> new_value cfg a b phi i j = Inr (Some (val i j))"
    and "\<And>j. FLOOR cfg \<Longrightarrow> in_grid cfg i j \<Longrightarrow> xy_in i j = 1
           \<Longrightarrow> - VMAX cfg \<le> val i j \<and> val i j \<le> VMAX cfg"
  shows "for_each [0..NY cfg - 1] (evolve_cell cfg a b xy_in i) (phi, filled xy_in val D)
         = Inr (phi, filled xy_in val (D \<union> {i} \<times> {0..NY cfg - 1}))"
proof -
  let ?I = "\<lambda>S s. s = (phi, filled xy_in val (D \<union> {i} \<times> S))"
  have "\<exists>s'. for_each [0..NY cfg - 1] (evolve_cell cfg a b xy_in i) (phi, filled xy_in val D) = Inr s'
          \<and> ?I ({} \<union> set [0..NY cfg - 1]) s'"
  proof (rule for_each_rule [where I = ?I])
    show "?I {} (phi, filled xy_in val D)" by simp
  next
    fix j S s
    assume j: "j \<in> set [0..NY cfg - 1]" and s: "?I S s"
    have g: "in_grid cfg i j" using j assms(1,2) by (simp add: in_grid_def)
    have "D \<union> {i} \<times> insert j S = insert (i, j) (D \<union> {i} \<times> S)" by auto
    then show "\<exists>s'. evolve_cell cfg a b xy_in i j s = Inr s' \<and> ?I (insert j S) s'"
      using evolve_cell_step [OF g, of xy_in a b phi val "D \<union> {i} \<times> S"]
        assms(3) [OF g] assms(4) [OF _ g] s
      by simp
  qed
  then show ?thesis by simp
qed

lemma compute_loops:
  assumes "\<And>i j. in_grid cfg i j \<Longrightarrow> xy_in i j = 1 \<Longrightarrow> new_value cfg a b phi i j = Inr (Some (val i j))"
    and "\<And>i j. FLOOR cfg \<Longrightarrow> in_grid cfg i j \<Longrightarrow> xy_in i j = 1
           \<Longrightarrow> - VMAX cfg \<le> val i j \<and> val i j \<le> VMAX cfg"
  shows "for_each [0..NX cfg - 1] (\<lambda>i. for_each [0..NY cfg - 1] (evolve_cell cfg a b xy_in i))
           (phi, \<lambda>i j. None)
         = Inr (phi, filled xy_in val ({0..NX cfg - 1} \<times> {0..NY cfg - 1}))"
proof -
  let ?I = "\<lambda>S s. s = (phi, filled xy_in val (S \<times> {0..NY cfg - 1}))"
  have e: "(\<lambda>i j. None) = filled xy_in val ({} \<times> {0..NY cfg - 1})"
    by (simp add: filled_def)
  have "\<exists>s'. for_each [0..NX cfg - 1] (\<lambda>i. for_each [0..NY cfg - 1] (evolve_cell cfg a b xy_in i))
               (phi, \<lambda>i j. None) = Inr s' \<and> ?I ({} \<union> set [0..NX cfg - 1]) s'"
  proof (rule for_each_rule [where I = ?I])
    show "?I {} (phi, \<lambda>i j. None)" using e by simp
  next
    fix i S s
    assume i: "i \<in> set [0..NX cfg - 1]" and s: "?I S s"
    have "insert i S \<times> {0..NY cfg - 1} = S \<times> {0..NY cfg - 1} \<union> {i} \<times> {0..NY cfg - 1}"
      by auto
    then show "\<exists>s'. for_each [0..NY cfg - 1] (evolve_cell cfg a b xy_in i) s = Inr s'
                 \<and> ?I (insert i S) s'"
      using evolve_row [of i cfg xy_in a b phi val "S \<times> {0..NY cfg - 1}"] assms i s
      by simp
  qed
  then show ?thesis by simp
qed

lemma commit_cell_step:
  assumes "in_grid cfg i j" and "(i, j) \<in> E"
  shows "commit_cell cfg xy_in (filled xy_in val E) i j (committed xy_in val phi D)
         = Inr (committed xy_in val phi (insert (i, j) D))"
proof (cases "xy_in i j = 1")
  case True
  have "(committed xy_in val phi D)(i := (committed xy_in val phi D i)(j := val i j))
        = committed xy_in val phi (insert (i, j) D)"
    using True by (auto simp: committed_def fun_eq_iff)
  moreover have "rd_init cfg (filled xy_in val E) i j = Inr (val i j)"
    using assms True by (simp add: rd_init_def rd_def filled_def)
  ultimately show ?thesis
    using assms True by (simp add: commit_cell_def rd_def wr_def)
next
  case False
  have "committed xy_in val phi (insert (i, j) D) = committed xy_in val phi D"
    using False by (auto simp: committed_def fun_eq_iff)
  then show ?thesis
    using assms False by (simp add: commit_cell_def rd_def)
qed

lemma commit_row:
  assumes "0 \<le> i" and "i < NX cfg" and "{i} \<times> {0..NY cfg - 1} \<subseteq> E"
  shows "for_each [0..NY cfg - 1] (commit_cell cfg xy_in (filled xy_in val E) i)
           (committed xy_in val phi D)
         = Inr (committed xy_in val phi (D \<union> {i} \<times> {0..NY cfg - 1}))"
proof -
  let ?I = "\<lambda>S s. s = committed xy_in val phi (D \<union> {i} \<times> S)"
  have "\<exists>s'. for_each [0..NY cfg - 1] (commit_cell cfg xy_in (filled xy_in val E) i)
               (committed xy_in val phi D) = Inr s' \<and> ?I ({} \<union> set [0..NY cfg - 1]) s'"
  proof (rule for_each_rule [where I = ?I])
    show "?I {} (committed xy_in val phi D)" by simp
  next
    fix j S s
    assume j: "j \<in> set [0..NY cfg - 1]" and s: "?I S s"
    have g: "in_grid cfg i j" using j assms(1,2) by (simp add: in_grid_def)
    have m: "(i, j) \<in> E" using j assms(3) by auto
    have "D \<union> {i} \<times> insert j S = insert (i, j) (D \<union> {i} \<times> S)" by auto
    then show "\<exists>s'. commit_cell cfg xy_in (filled xy_in val E) i j s = Inr s' \<and> ?I (insert j S) s'"
      using commit_cell_step [OF g m, of xy_in val phi "D \<union> {i} \<times> S"] s by simp
  qed
  then show ?thesis by simp
qed

lemma commit_loops:
  "for_each [0..NX cfg - 1]
     (\<lambda>i. for_each [0..NY cfg - 1]
        (commit_cell cfg xy_in (filled xy_in val ({0..NX cfg - 1} \<times> {0..NY cfg - 1})) i)) phi
   = Inr (committed xy_in val phi ({0..NX cfg - 1} \<times> {0..NY cfg - 1}))"
proof -
  let ?E = "{0..NX cfg - 1} \<times> {0..NY cfg - 1}"
  let ?I = "\<lambda>S s. s = committed xy_in val phi (S \<times> {0..NY cfg - 1})"
  have e: "phi = committed xy_in val phi ({} \<times> {0..NY cfg - 1})"
    by (simp add: committed_def)
  have "\<exists>s'. for_each [0..NX cfg - 1]
               (\<lambda>i. for_each [0..NY cfg - 1] (commit_cell cfg xy_in (filled xy_in val ?E) i)) phi
             = Inr s' \<and> ?I ({} \<union> set [0..NX cfg - 1]) s'"
  proof (rule for_each_rule [where I = ?I])
    show "?I {} phi" using e by simp
  next
    fix i S s
    assume i: "i \<in> set [0..NX cfg - 1]" and s: "?I S s"
    have sub: "{i} \<times> {0..NY cfg - 1} \<subseteq> ?E" using i by auto
    have "insert i S \<times> {0..NY cfg - 1} = S \<times> {0..NY cfg - 1} \<union> {i} \<times> {0..NY cfg - 1}"
      by auto
    then show "\<exists>s'. for_each [0..NY cfg - 1] (commit_cell cfg xy_in (filled xy_in val ?E) i) s
                 = Inr s' \<and> ?I (insert i S) s'"
      using commit_row [OF _ _ sub, of xy_in val phi "S \<times> {0..NY cfg - 1}"] i s by simp
  qed
  then show ?thesis by simp
qed

lemma evolve_wave_unclamped:
  assumes "\<And>i j. in_grid cfg i j \<Longrightarrow> xy_in i j = 1 \<Longrightarrow> new_value cfg a b phi i j = Inr (Some (val i j))"
    and "\<And>i j. FLOOR cfg \<Longrightarrow> in_grid cfg i j \<Longrightarrow> xy_in i j = 1
           \<Longrightarrow> - VMAX cfg \<le> val i j \<and> val i j \<le> VMAX cfg"
  shows "evolve_wave cfg a b phi xy_in
         = Inr (\<lambda>i j. if in_grid cfg i j \<and> xy_in i j = 1 then val i j else phi i j)"
proof -
  have "committed xy_in val phi ({0..NX cfg - 1} \<times> {0..NY cfg - 1})
        = (\<lambda>i j. if in_grid cfg i j \<and> xy_in i j = 1 then val i j else phi i j)"
    by (auto simp: committed_def in_grid_def fun_eq_iff)
  then show ?thesis
    by (simp add: evolve_wave_def compute_loops [OF assms] commit_loops)
qed

text \<open>The clamped (Dirichlet, absorbing) and wrapped (periodic) neighbour indices of a
  grid cell are grid indices.\<close>

lemma smod_wrap_range:
  fixes k n :: int
  assumes "- 1 \<le> k" and "k \<le> n" and "0 < n"
  shows "0 \<le> (if k smod n < 0 then k smod n + n else k smod n)"
    and "(if k smod n < 0 then k smod n + n else k smod n) < n"
proof -
  consider "k = - 1" | "0 \<le> k" using assms(1) by linarith
  then have "0 \<le> (if k smod n < 0 then k smod n + n else k smod n)
             \<and> (if k smod n < 0 then k smod n + n else k smod n) < n"
  proof cases
    case 1
    have "(1::int) mod n = 1 \<or> (1::int) mod n = 0"
      using assms(3) by (cases "n = 1") auto
    then show ?thesis
      using 1 assms(3) by (auto simp: signed_modulo_int_def)
  next
    case 2
    then have "k smod n = k mod n"
      using assms(3) by (simp add: signed_modulo_int_def sgn_if)
    then show ?thesis
      using assms(3) by simp
  qed
  then show "0 \<le> (if k smod n < 0 then k smod n + n else k smod n)"
    and "(if k smod n < 0 then k smod n + n else k smod n) < n"
    by simp_all
qed

lemma stencil_indices_in_grid:
  assumes "in_grid cfg i j" and "stencil_indices cfg i j = (iplus, iminus, jplus, jminus)"
  shows "in_grid cfg iplus j \<and> in_grid cfg iminus j \<and> in_grid cfg i jplus \<and> in_grid cfg i jminus"
proof (cases "B_COND cfg = BC_DIRICHLET \<or> B_COND cfg = BC_ABSORBING")
  case True
  then show ?thesis
    using assms by (auto simp: stencil_indices_def in_grid_def Let_def split: if_splits)
next
  case False
  have i: "0 \<le> i" "i < NX cfg" and j: "0 \<le> j" "j < NY cfg"
    using assms(1) by (simp_all add: in_grid_def)
  have "0 \<le> (i + 1) smod NX cfg \<and> (i + 1) smod NX cfg < NX cfg"
    using smod_wrap_range [of "i + 1" "NX cfg"] i
    by (auto simp: signed_modulo_int_def sgn_if abs_if)
  moreover have "0 \<le> (j + 1) smod NY cfg \<and> (j + 1) smod NY cfg < NY cfg"
    using j by (auto simp: signed_modulo_int_def sgn_if abs_if)
  ultimately show ?thesis
    using False assms smod_wrap_range [of "i - 1" "NX cfg"] smod_wrap_range [of "j - 1" "NY cfg"]
    by (simp add: stencil_indices_def in_grid_def Let_def split: if_splits) 
qed

lemma new_value_total:
  assumes "B_COND cfg \<noteq> BC_ABSORBING" and "in_grid cfg i j"
  shows "\<exists>v. new_value cfg a b phi i j = Inr (Some v)"
proof -
  obtain iplus iminus jplus jminus
    where s: "stencil_indices cfg i j = (iplus, iminus, jplus, jminus)"
    by (cases "stencil_indices cfg i j") auto
  from stencil_indices_in_grid [OF assms(2) s] assms show ?thesis
    by (simp add: new_value_def s rd_def Let_def)
qed

lemma new_value_uniform:
  assumes "B_COND cfg \<noteq> BC_ABSORBING" and "in_grid cfg i j"
    and "\<And>i j. in_grid cfg i j \<Longrightarrow> phi i j = c"
  shows "new_value cfg a b phi i j = Inr (Some c)"
proof -
  obtain iplus iminus jplus jminus
    where s: "stencil_indices cfg i j = (iplus, iminus, jplus, jminus)"
    by (cases "stencil_indices cfg i j") auto
  from stencil_indices_in_grid [OF assms(2) s] assms show ?thesis
    by (simp add: new_value_def s rd_def Let_def)
qed

text \<open>Two nested counting loops with an invariant \<open>I D s\<close> of the state \<open>s\<close> and the set
  \<open>D\<close> of the cells done.\<close>

lemma for_each_grid_rule:
  assumes "I {} s"
    and "\<And>i j D s. i \<in> set rows \<Longrightarrow> j \<in> set cols \<Longrightarrow> I D s
           \<Longrightarrow> \<exists>s'. body i j s = Inr s' \<and> I (insert (i, j) D) s'"
  shows "\<exists>s'. for_each rows (\<lambda>i. for_each cols (body i)) s = Inr s' \<and> I (set rows \<times> set cols) s'"
proof -
  have row: "\<exists>s'. for_each cols (body i) s = Inr s' \<and> I (D \<union> {i} \<times> set cols) s'"
    if i: "i \<in> set rows" and s: "I D s" for i D s
  proof -
    let ?I = "\<lambda>S s. I (D \<union> {i} \<times> S) s"
    have "\<exists>s'. for_each cols (body i) s = Inr s' \<and> ?I ({} \<union> set cols) s'"
    proof (rule for_each_rule [where I = ?I])
      show "?I {} s" using s by simp
    next
      fix j S t
      assume j: "j \<in> set cols" and t: "?I S t"
      have "D \<union> {i} \<times> insert j S = insert (i, j) (D \<union> {i} \<times> S)" by auto
      then show "\<exists>s'. body i j t = Inr s' \<and> ?I (insert j S) s'"
        using assms(2) [OF i j t] by simp
    qed
    then show ?thesis by simp
  qed
  let ?J = "\<lambda>S s. I (S \<times> set cols) s"
  have "\<exists>s'. for_each rows (\<lambda>i. for_each cols (body i)) s = Inr s' \<and> ?J ({} \<union> set rows) s'"
  proof (rule for_each_rule [where I = ?J])
    show "?J {} s" using assms(1) by simp
  next
    fix i S t
    assume i: "i \<in> set rows" and t: "?J S t"
    have "insert i S \<times> set cols = S \<times> set cols \<union> {i} \<times> set cols" by auto
    then show "\<exists>s'. for_each cols (body i) t = Inr s' \<and> ?J (insert i S) s'"
      using row [OF i t] by simp
  qed
  then show ?thesis by simp
qed

lemma floor_clamp_frame:
  assumes "floor_clamp cfg i j (p, n) = Inr (p', n')"
  shows "n' = n \<and> (\<forall>i' j'. (i', j') \<noteq> (i, j) \<longrightarrow> p' i' j' = p i' j')"
  using assms
  by (auto simp: floor_clamp_def wr_def split: if_splits sum.splits)

text \<open>Outside the absorbing policy the body of the first loops returns at every grid
  cell, whatever the clamp does: it writes \<^verbatim>\<open>newphi\<close> at a cell of status 1 and at no
  other cell.\<close>

lemma floor_clamp_returns:
  assumes "in_grid cfg i j" and "n i j = Some v"
  shows "\<exists>p'. floor_clamp cfg i j (p, n) = Inr (p', n)"
proof -
  have "rd_init cfg n i j = Inr v" using assms by (simp add: rd_init_def rd_def)
  then show ?thesis using assms(1) by (simp add: floor_clamp_def wr_def)
qed

lemma evolve_cell_returns:
  assumes "B_COND cfg \<noteq> BC_ABSORBING" and "in_grid cfg i j"
  shows "\<exists>p' n'. evolve_cell cfg a b xy_in i j (p, n) = Inr (p', n')
           \<and> (xy_in i j = 1 \<longrightarrow> n' i j \<noteq> None)
           \<and> (\<forall>i' j'. (i', j') \<noteq> (i, j) \<longrightarrow> n' i' j' = n i' j')"
proof (cases "xy_in i j = 1")
  case False
  then show ?thesis using assms(2) by (simp add: evolve_cell_def rd_def)
next
  case True
  obtain v where v: "new_value cfg a b p i j = Inr (Some v)"
    using new_value_total [OF assms] by blast
  let ?n = "n(i := (n i)(j := Some v))"
  obtain p' where "floor_clamp cfg i j (p, ?n) = Inr (p', ?n)"
    using floor_clamp_returns [OF assms(2), of ?n v p] by auto
  then have "evolve_cell cfg a b xy_in i j (p, n) = Inr (p', ?n)"
    using True assms(2) v by (simp add: evolve_cell_def rd_def wr_def)
  then show ?thesis by auto
qed

lemma evolve_cell_newphi_frame:
  assumes "evolve_cell cfg a b xy_in i j (p, n) = Inr (p', n')" and "(i', j') \<noteq> (i, j)"
  shows "n' i' j' = n i' j'"
proof (cases "in_grid cfg i j \<and> xy_in i j = 1")
  case False
  then show ?thesis using assms(1) by (auto simp: evolve_cell_def rd_def split: if_splits)
next
  case True
  then obtain r n1 where n1: "(case r of None \<Rightarrow> Inr n | Some v \<Rightarrow> wr cfg n i j (Some v)) = Inr n1"
    and f: "floor_clamp cfg i j (p, n1) = Inr (p', n')"
    using assms(1) by (auto simp: evolve_cell_def rd_def split: sum.splits)
  have "n1 i' j' = n i' j'"
    using n1 assms(2) by (cases r) (auto simp: wr_def split: if_splits)
  moreover have "n' = n1" using floor_clamp_frame [OF f] by simp
  ultimately show ?thesis by simp
qed

lemma compute_loops_return:
  assumes "B_COND cfg \<noteq> BC_ABSORBING"
  shows "\<exists>p n. for_each [0..NX cfg - 1] (\<lambda>i. for_each [0..NY cfg - 1] (evolve_cell cfg a b xy_in i))
                 (phi, \<lambda>i j. None) = Inr (p, n)
               \<and> (\<forall>i j. in_grid cfg i j \<and> xy_in i j = 1 \<longrightarrow> n i j \<noteq> None)"
proof -
  let ?I = "\<lambda>D (s :: real grid \<times> real option grid).
              \<forall>i j. (i, j) \<in> D \<and> xy_in i j = 1 \<longrightarrow> snd s i j \<noteq> None"
  have "\<exists>s'. for_each [0..NX cfg - 1] (\<lambda>i. for_each [0..NY cfg - 1] (evolve_cell cfg a b xy_in i))
               (phi, \<lambda>i j. None) = Inr s'
             \<and> ?I (set [0..NX cfg - 1] \<times> set [0..NY cfg - 1]) s'"
  proof (rule for_each_grid_rule [where I = ?I])
    show "?I {} (phi, \<lambda>i j. None)" by simp
  next
    fix i j D s
    assume i: "i \<in> set [0..NX cfg - 1]" and j: "j \<in> set [0..NY cfg - 1]" and s: "?I D s"
    have g: "in_grid cfg i j" using i j by (simp add: in_grid_def)
    obtain p n where pn: "s = (p, n)" by (cases s) auto
    obtain p' n' where r: "evolve_cell cfg a b xy_in i j (p, n) = Inr (p', n')"
      and h: "xy_in i j = 1 \<longrightarrow> n' i j \<noteq> None"
      and f: "\<forall>i' j'. (i', j') \<noteq> (i, j) \<longrightarrow> n' i' j' = n i' j'"
      using evolve_cell_returns [OF assms g, of a b xy_in p n] by blast
    have "?I (insert (i, j) D) (p', n')"
    proof (intro allI impI)
      fix i' j'
      assume m: "(i', j') \<in> insert (i, j) D \<and> xy_in i' j' = 1"
      show "snd (p', n') i' j' \<noteq> None"
      proof (cases "(i', j') = (i, j)")
        case True
        then show ?thesis using h m by simp
      next
        case False
        then have "n' i' j' = n i' j'" using f by blast
        moreover have "(i', j') \<in> D \<and> xy_in i' j' = 1" using m False by auto
        then have "n i' j' \<noteq> None" using s unfolding pn snd_conv by blast
        ultimately show ?thesis by simp
      qed
    qed
    then show "\<exists>s'. evolve_cell cfg a b xy_in i j s = Inr s' \<and> ?I (insert (i, j) D) s'"
      using r pn by blast
  qed
  then obtain s' where l: "for_each [0..NX cfg - 1]
        (\<lambda>i. for_each [0..NY cfg - 1] (evolve_cell cfg a b xy_in i)) (phi, \<lambda>i j. None) = Inr s'"
    and k: "?I (set [0..NX cfg - 1] \<times> set [0..NY cfg - 1]) s'"
    by blast
  obtain p n where pn: "s' = (p, n)" by (cases s') auto
  have "\<forall>i j. in_grid cfg i j \<and> xy_in i j = 1 \<longrightarrow> n i j \<noteq> None"
    using k by (simp add: pn in_grid_def)
  then show ?thesis using l pn by blast
qed

text \<open>The second loops copy \<^verbatim>\<open>newphi\<close> into every grid cell of status 1.\<close>

lemma commit_loops_return:
  assumes "\<forall>i j. in_grid cfg i j \<and> xy_in i j = 1 \<longrightarrow> n i j \<noteq> None"
  shows "\<exists>p'. for_each [0..NX cfg - 1] (\<lambda>i. for_each [0..NY cfg - 1] (commit_cell cfg xy_in n i)) p
               = Inr p'
             \<and> (\<forall>i j. in_grid cfg i j \<and> xy_in i j = 1 \<longrightarrow> n i j = Some (p' i j))"
proof -
  let ?I = "\<lambda>D (q :: real grid). \<forall>i j. (i, j) \<in> D \<and> xy_in i j = 1 \<longrightarrow> n i j = Some (q i j)"
  have "\<exists>p'. for_each [0..NX cfg - 1] (\<lambda>i. for_each [0..NY cfg - 1] (commit_cell cfg xy_in n i)) p
               = Inr p'
             \<and> ?I (set [0..NX cfg - 1] \<times> set [0..NY cfg - 1]) p'"
  proof (rule for_each_grid_rule [where I = ?I])
    show "?I {} p" by simp
  next
    fix i j D q
    assume i: "i \<in> set [0..NX cfg - 1]" and j: "j \<in> set [0..NY cfg - 1]" and q: "?I D q"
    have g: "in_grid cfg i j" using i j by (simp add: in_grid_def)
    show "\<exists>q'. commit_cell cfg xy_in n i j q = Inr q' \<and> ?I (insert (i, j) D) q'"
    proof (cases "xy_in i j = 1")
      case False
      then have "commit_cell cfg xy_in n i j q = Inr q" using g by (simp add: commit_cell_def rd_def)
      moreover have "?I (insert (i, j) D) q" using q False by auto
      ultimately show ?thesis by blast
    next
      case True
      then obtain v where v: "n i j = Some v" using assms g by auto
      let ?q = "q(i := (q i)(j := v))"
      have "commit_cell cfg xy_in n i j q = Inr ?q"
        using True g v by (simp add: commit_cell_def rd_def rd_init_def wr_def)
      moreover have "?I (insert (i, j) D) ?q"
        using q v by auto
      ultimately show ?thesis by blast
    qed
  qed
  then show ?thesis by (simp add: in_grid_def)
qed

lemma evolve_cell_frame:
  assumes "evolve_cell cfg a b xy_in i j (p, n) = Inr (p', n')"
    and "\<not> (in_grid cfg i' j' \<and> xy_in i' j' = 1)"
  shows "p' i' j' = p i' j'"
proof (cases "in_grid cfg i j \<and> xy_in i j = 1")
  case True
  then have "(i', j') \<noteq> (i, j)" using assms(2) by auto
  moreover obtain n1 where "floor_clamp cfg i j (p, n1) = Inr (p', n')"
    using assms(1) True by (auto simp: evolve_cell_def rd_def split: sum.splits)
  ultimately show ?thesis using floor_clamp_frame by blast
next
  case False
  then show ?thesis
    using assms(1) by (auto simp: evolve_cell_def rd_def split: if_splits)
qed

lemma commit_cell_frame:
  assumes "commit_cell cfg xy_in n i j p = Inr p'"
    and "\<not> (in_grid cfg i' j' \<and> xy_in i' j' = 1)"
  shows "p' i' j' = p i' j'"
  using assms
  by (auto simp: commit_cell_def rd_def wr_def split: if_splits sum.splits)

lemma compute_loops_frame:
  assumes "for_each rows (\<lambda>i. for_each cols (evolve_cell cfg a b xy_in i)) (p, n) = Inr (p', n')"
    and "\<not> (in_grid cfg i' j' \<and> xy_in i' j' = 1)"
  shows "p' i' j' = p i' j'"
proof -
  let ?P = "\<lambda>s. fst s i' j' = p i' j'"
  have row: "?P s'" if "for_each cols (evolve_cell cfg a b xy_in i) s = Inr s'" and "?P s"
    for i s s'
    using that(1,2)
  proof (rule for_each_inv [where P = ?P])
    fix j t t'
    assume "?P t" and "evolve_cell cfg a b xy_in i j t = Inr t'"
    then show "?P t'"
      using evolve_cell_frame [of cfg a b xy_in i j "fst t" "snd t" "fst t'" "snd t'", OF _ assms(2)]
      by simp
  qed
  have "?P (p', n')"
    using assms(1)
  proof (rule for_each_inv [where P = ?P])
    show "?P (p, n)" by simp
  next
    fix i s s'
    assume "?P s" and "for_each cols (evolve_cell cfg a b xy_in i) s = Inr s'"
    then show "?P s'" using row by blast
  qed
  then show ?thesis by simp
qed

lemma commit_loops_frame:
  assumes "for_each rows (\<lambda>i. for_each cols (commit_cell cfg xy_in n i)) p = Inr p'"
    and "\<not> (in_grid cfg i' j' \<and> xy_in i' j' = 1)"
  shows "p' i' j' = p i' j'"
proof -
  let ?P = "\<lambda>s. s i' j' = p i' j'"
  have row: "?P s'" if "for_each cols (commit_cell cfg xy_in n i) s = Inr s'" and "?P s"
    for i s s'
    using that(1,2)
  proof (rule for_each_inv [where P = ?P])
    fix j t t'
    assume "?P t" and "commit_cell cfg xy_in n i j t = Inr t'"
    then show "?P t'"
      using commit_cell_frame [of cfg xy_in n i j t t', OF _ assms(2)] by simp
  qed
  show ?thesis
    using assms(1)
  proof (rule for_each_inv [where P = ?P])
    show "?P p" by simp
  next
    fix i s s'
    assume "?P s" and "for_each cols (commit_cell cfg xy_in n i) s = Inr s'"
    then show "?P s'" using row by blast
  qed
qed

lemma evolve_wave_total:
  assumes "B_COND cfg \<noteq> BC_ABSORBING"
  shows "\<exists>phi'. evolve_wave cfg a b phi xy_in = Inr phi'"
proof -
  obtain p n where l: "for_each [0..NX cfg - 1]
        (\<lambda>i. for_each [0..NY cfg - 1] (evolve_cell cfg a b xy_in i)) (phi, \<lambda>i j. None) = Inr (p, n)"
    and h: "\<forall>i j. in_grid cfg i j \<and> xy_in i j = 1 \<longrightarrow> n i j \<noteq> None"
    using compute_loops_return [OF assms] by blast
  obtain p' where "for_each [0..NX cfg - 1]
        (\<lambda>i. for_each [0..NY cfg - 1] (commit_cell cfg xy_in n i)) p = Inr p'"
    using commit_loops_return [OF h] by blast
  then show ?thesis using l by (simp add: evolve_wave_def)
qed

text \<open>
  C2. The stencil step updates only cells of status 1. Whenever \<open>evolve_wave\<close> returns a
  field, every cell that is not a grid cell of status 1 (status 0, status 2 and more, and
  everything outside the grid) holds the value it held before the call; and under the
  Dirichlet policy (as shipped) and the periodic policy it does return a field, for every
  input field and status grid, with the debugging clamp off or on.
\<close>

theorem evolve_wave_frame:
  "(B_COND cfg \<noteq> BC_ABSORBING
      \<longrightarrow> (\<exists>phi'. evolve_wave cfg intstep intstep1 phi xy_in = Inr phi'))
   \<and> (\<forall>phi'. evolve_wave cfg intstep intstep1 phi xy_in = Inr phi'
        \<longrightarrow> (\<forall>i j. \<not> (in_grid cfg i j \<and> xy_in i j = 1) \<longrightarrow> phi' i j = phi i j))"
proof (intro conjI impI allI)
  assume "B_COND cfg \<noteq> BC_ABSORBING"
  then show "\<exists>phi'. evolve_wave cfg intstep intstep1 phi xy_in = Inr phi'"
    using evolve_wave_total by blast
next
  fix phi' i j
  assume r: "evolve_wave cfg intstep intstep1 phi xy_in = Inr phi'"
    and c: "\<not> (in_grid cfg i j \<and> xy_in i j = 1)"
  from r obtain phi1 newphi
    where 1: "for_each [0..NX cfg - 1]
                (\<lambda>i. for_each [0..NY cfg - 1] (evolve_cell cfg intstep intstep1 xy_in i))
                (phi, \<lambda>i j. None) = Inr (phi1, newphi)"
      and 2: "for_each [0..NX cfg - 1]
                (\<lambda>i. for_each [0..NY cfg - 1] (commit_cell cfg xy_in newphi i)) phi1 = Inr phi'"
    by (auto simp: evolve_wave_def split: sum.splits)
  have "phi1 i j = phi i j" using compute_loops_frame [OF 1 c] .
  moreover have "phi' i j = phi1 i j" using commit_loops_frame [OF 2 c] .
  ultimately show "phi' i j = phi i j" by simp
qed

theorem evolve_wave_frame_witness:
  "\<exists>phi'. evolve_wave demo_config (128/3125) (2/15625) demo_phi demo_xy_in = Inr phi'
     \<and> phi' 0 1 = 2 \<and> phi' 1 1 = 3 \<and> phi' 1 0 = 1"
proof -
  have h: "B_COND demo_config \<noteq> BC_ABSORBING"
    by (simp add: demo_config_def heat_config_def)
  have f: "\<not> (in_grid demo_config 0 1 \<and> demo_xy_in 0 1 = 1)"
      "\<not> (in_grid demo_config 1 1 \<and> demo_xy_in 1 1 = 1)"
      "\<not> (in_grid demo_config 1 0 \<and> demo_xy_in 1 0 = 1)"
    by (simp_all add: demo_xy_in_def)
  from evolve_wave_frame [of demo_config "128/3125" "2/15625" demo_phi demo_xy_in] h f
  show ?thesis by (auto simp: demo_phi_def)
qed

text \<open>
  C1. Under the Dirichlet policy a field that holds one value \<open>c\<close> on every grid cell
  (interior and boundary cells alike) is a fixed point of the stencil step: the step
  returns its input. The debugging clamp is off, as shipped, or \<open>c\<close> lies within its
  range.
\<close>

theorem evolve_wave_uniform_fixed_point:
  assumes "B_COND cfg = BC_DIRICHLET"
    and "FLOOR cfg \<longrightarrow> - VMAX cfg \<le> c \<and> c \<le> VMAX cfg"
    and "\<forall>i j. in_grid cfg i j \<longrightarrow> phi i j = c"
  shows "evolve_wave cfg intstep intstep1 phi xy_in = Inr phi"
proof -
  have "evolve_wave cfg intstep intstep1 phi xy_in
        = Inr (\<lambda>i j. if in_grid cfg i j \<and> xy_in i j = 1 then c else phi i j)"
  proof (rule evolve_wave_unclamped)
    fix i j
    assume "in_grid cfg i j"
    then show "new_value cfg intstep intstep1 phi i j = Inr (Some c)"
      using assms(1,3) by (intro new_value_uniform) auto
  next
    fix i j
    assume "FLOOR cfg"
    then show "- VMAX cfg \<le> c \<and> c \<le> VMAX cfg" using assms(2) by simp
  qed
  moreover have "(\<lambda>i j. if in_grid cfg i j \<and> xy_in i j = 1 then c else phi i j) = phi"
    using assms(3) by (auto simp: fun_eq_iff)
  ultimately show ?thesis by simp
qed

theorem evolve_wave_uniform_fixed_point_witness:
  "B_COND heat_config = BC_DIRICHLET
   \<and> \<not> FLOOR heat_config
   \<and> evolve_wave heat_config (128/3125) (2/15625) (\<lambda>i j. 1/10) (\<lambda>i j. if 100 \<le> i then 1 else 2)
     = Inr (\<lambda>i j. 1/10)"
proof -
  have h: "B_COND heat_config = BC_DIRICHLET" "\<not> FLOOR heat_config"
    by (simp_all add: heat_config_def)
  from evolve_wave_uniform_fixed_point [of heat_config "1/10" "\<lambda>i j. 1/10"] h
  show ?thesis by simp
qed

lemma for_each_fails:
  assumes "x \<in> set xs" and "\<And>s. body x s = Inl e"
    and "\<And>y s e'. y \<in> set xs \<Longrightarrow> body y s = Inl e' \<Longrightarrow> e' = e"
  shows "for_each xs body s = Inl e"
  using assms(1,3)
proof (induction xs arbitrary: s)
  case Nil
  then show ?case by simp
next
  case (Cons y ys)
  show ?case
  proof (cases "body y s")
    case (Inl e')
    have "e' = e" by (rule Cons.prems(2) [OF _ Inl]) simp
    then show ?thesis using Inl by simp
  next
    case (Inr s1)
    have "x \<noteq> y" using Inr assms(2) [of s] by auto
    then have m: "x \<in> set ys" using Cons.prems(1) by simp
    have "for_each ys body s1 = Inl e"
    proof (rule Cons.IH [OF m])
      fix z t e'
      assume "z \<in> set ys" and b: "body z t = Inl e'"
      then have "z \<in> set (y # ys)" by simp
      then show "e' = e" using b by (rule Cons.prems(2))
    qed
    then show ?thesis using Inr by simp
  qed
qed

lemma for_each_error:
  assumes "for_each xs body s = Inl e"
  shows "\<exists>x \<in> set xs. \<exists>t. body x t = Inl e"
  using assms
proof (induction xs arbitrary: s)
  case Nil
  then show ?case by simp
next
  case (Cons y ys)
  then show ?case by (cases "body y s") auto
qed

lemma rd_in_grid: "in_grid cfg i j \<Longrightarrow> rd cfg a i j = Inr (a i j)"
  by (simp add: rd_def)

lemma rd_error: "rd cfg a i j = Inl e \<Longrightarrow> e = Out_of_bounds"
  by (simp add: rd_def split: if_splits)

lemma wr_error: "wr cfg a i j v = Inl e \<Longrightarrow> e = Out_of_bounds"
  by (simp add: wr_def split: if_splits)

lemma bind_not_error:
  assumes "m \<noteq> Inl e" and "\<And>a. f a \<noteq> Inl e"
  shows "(case m of Inl e' \<Rightarrow> Inl e' | Inr a \<Rightarrow> f a) \<noteq> Inl e"
  using assms by (cases m) auto

lemma bind_error:
  assumes "m = Inl e \<or> (\<exists>a. m = Inr a)" and "\<And>a. f a = Inl e"
  shows "(case m of Inl e' \<Rightarrow> Inl e' | Inr a \<Rightarrow> f a) = Inl e"
  using assms by (cases m) auto

lemma rd_cases: "rd cfg a i j = Inl Out_of_bounds \<or> (\<exists>v. rd cfg a i j = Inr v)"
  by (simp add: rd_def)

lemma wr_cases: "wr cfg a i j v = Inl Out_of_bounds \<or> (\<exists>b. wr cfg a i j v = Inr b)"
  by (simp add: wr_def)

lemma rd_not_uninitialised: "rd cfg a i j \<noteq> Inl Uninitialised"
  by (simp add: rd_def)

lemma wr_not_uninitialised: "wr cfg a i j v \<noteq> Inl Uninitialised"
  by (simp add: wr_def)

lemma gradient_cell_error:
  assumes "gradient_cell cfg phi dx i j s = Inl e"
  shows "e = Out_of_bounds"
proof -
  obtain nx ny where s: "s = (nx, ny)" by (cases s) auto
  have "gradient_cell cfg phi dx i j (nx, ny) \<noteq> Inl Uninitialised"
    unfolding gradient_cell_def Let_def prod.case
    apply (rule bind_not_error [OF rd_not_uninitialised])
    apply (rule bind_not_error [OF rd_not_uninitialised])
    apply (rule bind_not_error [OF wr_not_uninitialised])
    apply (rule bind_not_error [OF rd_not_uninitialised])
    apply (rule bind_not_error [OF rd_not_uninitialised])
    apply (rule bind_not_error [OF wr_not_uninitialised])
    apply simp
    done
  then show ?thesis using assms s by (cases e) auto
qed

lemma gradient_cell_last_column:
  assumes "NX cfg \<noteq> NY cfg"
  shows "gradient_cell cfg phi dx i (NY cfg - 1) s = Inl Out_of_bounds"
proof -
  obtain nx ny where s: "s = (nx, ny)" by (cases s) auto
  have ne: "NY cfg \<noteq> NX cfg" using assms by simp
  have r: "rd cfg phi i (NY cfg) = Inl Out_of_bounds"
    by (simp add: rd_def in_grid_def)
  have "gradient_cell cfg phi dx i (NY cfg - 1) (nx, ny) = Inl Out_of_bounds"
    unfolding gradient_cell_def Let_def prod.case
    apply (rule bind_error [OF rd_cases])
    apply (rule bind_error [OF rd_cases])
    apply (rule bind_error [OF wr_cases])
    apply (simp add: ne r)
    done
  then show ?thesis by (simp add: s)
qed

lemma compute_gradient_out_of_bounds:
  assumes "NX cfg \<noteq> NY cfg" and "0 < NX cfg" and "0 < NY cfg"
  shows "compute_gradient cfg phi nablax nablay = Inl Out_of_bounds"
proof -
  let ?dx = "(XMAX cfg - XMIN cfg) / real_of_int (NX cfg)"
  have row: "for_each [0..NY cfg - 1] (gradient_cell cfg phi ?dx 0) s = Inl Out_of_bounds" for s
  proof (rule for_each_fails [where x = "NY cfg - 1"])
    show "NY cfg - 1 \<in> set [0..NY cfg - 1]" using assms(3) by simp
    show "gradient_cell cfg phi ?dx 0 (NY cfg - 1) s = Inl Out_of_bounds" for s
      using assms(1) by (rule gradient_cell_last_column)
    show "e' = Out_of_bounds" if "gradient_cell cfg phi ?dx 0 y s = Inl e'" for y s e'
      using that by (rule gradient_cell_error)
  qed
  have "for_each [0..NX cfg - 1] (\<lambda>i. for_each [0..NY cfg - 1] (gradient_cell cfg phi ?dx i))
          (nablax, nablay) = Inl Out_of_bounds"
  proof (rule for_each_fails [where x = 0])
    show "0 \<in> set [0..NX cfg - 1]" using assms(2) by simp
    show "for_each [0..NY cfg - 1] (gradient_cell cfg phi ?dx 0) s = Inl Out_of_bounds" for s
      by (rule row)
    show "e' = Out_of_bounds"
      if "for_each [0..NY cfg - 1] (gradient_cell cfg phi ?dx y) s = Inl e'" for y s e'
      using for_each_error [OF that] gradient_cell_error by blast
  qed
  then show ?thesis by (simp add: compute_gradient_def)
qed

text \<open>
  C3 (the claim: the gradient of a constant field is zero everywhere, every array access
  in bounds). At the shipped grid of 1280 x 720 cells \<open>compute_gradient\<close> reads outside
  the field, whatever the field holds: in the last column \<^verbatim>\<open>jplus\<close> is \<^verbatim>\<open>NY\<close>,
  which line 271 compares with \<^verbatim>\<open>NX\<close> and leaves unclamped, and line 274 reads
  \<^verbatim>\<open>phi[i][NY]\<close>.
\<close>

theorem compute_gradient_shipped_out_of_bounds:
  "compute_gradient heat_config phi nablax nablay = Inl Out_of_bounds"
  by (rule compute_gradient_out_of_bounds) (simp_all add: heat_config_def)

lemma new_value_error:
  assumes "new_value cfg a b phi i j = Inl e" and "in_grid cfg i j"
    and "2 \<le> NX cfg" and "2 \<le> NY cfg"
  shows "e = Uninitialised"
proof -
  obtain iplus iminus jplus jminus
    where s: "stencil_indices cfg i j = (iplus, iminus, jplus, jminus)"
    by (cases "stencil_indices cfg i j") auto
  note g = stencil_indices_in_grid [OF assms(2) s]
  have r: "rd cfg phi iplus j = Inr (phi iplus j)" "rd cfg phi iminus j = Inr (phi iminus j)"
    "rd cfg phi i jplus = Inr (phi i jplus)" "rd cfg phi i jminus = Inr (phi i jminus)"
    "rd cfg phi i j = Inr (phi i j)"
    using g assms(2) by (simp_all add: rd_in_grid)
  have b1: "rd cfg phi (i - 1) j = Inr (phi (i - 1) j)" if "i = NX cfg - 1"
    using that assms(2,3) by (simp add: rd_def in_grid_def)
  have b2: "rd cfg phi i (j - 1) = Inr (phi i (j - 1))" if "j = NY cfg - 1"
    using that assms(2,4) by (simp add: rd_def in_grid_def)
  have b3: "rd cfg phi 1 j = Inr (phi 1 j)"
    using assms(2,3) by (simp add: rd_def in_grid_def)
  have b4: "rd cfg phi i 1 = Inr (phi i 1)"
    using assms(2,4) by (simp add: rd_def in_grid_def)
  have "new_value cfg a b phi i j = Inl e \<longrightarrow> e = Uninitialised"
    using g assms(2,3,4) by (simp add: new_value_def s Let_def rd_def in_grid_def)
  then show ?thesis using assms(1) by simp
qed

text \<open>Lines 510-528: on the four border rows and columns the absorbing policy relaxes the
  cell toward its inward neighbour with the step \<open>intstep1\<close>; the right border takes the
  corners of its column, then the upper border, then the left one.\<close>

lemma new_value_absorbing_border:
  assumes "B_COND cfg = BC_ABSORBING" and "in_grid cfg i j"
    and "2 \<le> NX cfg" and "2 \<le> NY cfg"
    and "\<not> (0 < i \<and> i < NX cfg - 1 \<and> 0 < j \<and> j < NY cfg - 1)"
  shows "new_value cfg intstep intstep1 phi i j
         = Inr (Some (phi i j - intstep1 * (phi i j -
             (if i = NX cfg - 1 then phi (i - 1) j
              else if j = NY cfg - 1 then phi i (j - 1)
              else if i = 0 then phi 1 j
              else phi i 1))))"
proof -
  obtain iplus iminus jplus jminus
    where s: "stencil_indices cfg i j = (iplus, iminus, jplus, jminus)"
    by (cases "stencil_indices cfg i j") auto
  note g = stencil_indices_in_grid [OF assms(2) s]
  have "i = NX cfg - 1 \<or> j = NY cfg - 1 \<or> i = 0 \<or> j = 0"
    using assms(2,5) by (auto simp: in_grid_def)
  then show ?thesis
    using g assms(1,2,3,4) by (auto simp: new_value_def s Let_def rd_def in_grid_def)
qed

lemma rd_init_error:
  "in_grid cfg i j \<Longrightarrow> rd_init cfg n i j = Inl e \<Longrightarrow> e = Uninitialised"
  by (simp add: rd_init_def rd_def split: option.splits)

lemma floor_clamp_error:
  assumes "floor_clamp cfg i j t = Inl e" and "in_grid cfg i j"
  shows "e = Uninitialised"
proof -
  obtain p n where t: "t = (p, n)" by (cases t) auto
  have w: "wr cfg q i j v = Inr (q(i := (q i)(j := v)))" for q :: "real grid" and v
    using assms(2) by (simp add: wr_def)
  show ?thesis
    using assms(1) rd_init_error [OF assms(2), of n]
    by (cases "rd_init cfg n i j") (auto simp: t floor_clamp_def w split: if_splits)
qed

lemma evolve_cell_error:
  assumes "evolve_cell cfg a b xy_in i j s = Inl e" and "in_grid cfg i j"
    and "2 \<le> NX cfg" and "2 \<le> NY cfg"
  shows "e = Uninitialised"
proof -
  obtain p n where s: "s = (p, n)" by (cases s) auto
  have w: "wr cfg q i j v = Inr (q(i := (q i)(j := v)))" for q :: "real option grid" and v
    using assms(2) by (simp add: wr_def)
  show ?thesis
  proof (cases "new_value cfg a b p i j")
    case (Inl e')
    then have "e' = Uninitialised" using new_value_error assms(2,3,4) by blast
    then show ?thesis
      using assms(1,2) Inl by (simp add: s evolve_cell_def rd_in_grid split: if_splits)
  next
    case (Inr r)
    then show ?thesis
      using assms(1,2) floor_clamp_error [OF _ assms(2)]
      by (cases r) (auto simp: s evolve_cell_def rd_in_grid w split: if_splits)
  qed
qed

lemma evolve_cell_bulk:
  assumes "B_COND cfg = BC_ABSORBING" and "0 < i" and "i < NX cfg - 1" and "0 < j"
    and "j < NY cfg - 1" and "xy_in i j = 1"
  shows "evolve_cell cfg a b xy_in i j s = Inl Uninitialised"
proof -
  obtain p n where s: "s = (p, n)" by (cases s) auto
  have g: "in_grid cfg i j" using assms by (simp add: in_grid_def)
  obtain iplus iminus jplus jminus
    where t: "stencil_indices cfg i j = (iplus, iminus, jplus, jminus)"
    by (cases "stencil_indices cfg i j") auto
  from stencil_indices_in_grid [OF g t] g assms
  have "new_value cfg a b p i j = Inl Uninitialised"
    by (simp add: new_value_def t rd_def Let_def)
  then show ?thesis
    using g assms(6) by (simp add: s evolve_cell_def rd_def)
qed

text \<open>
  C7 (the claim: under the absorbing policy a cell of status 1 off the border is updated
  by \<open>new = old + intstep * laplacian\<close>). Under the absorbing policy, as soon as one cell
  of status 1 lies off the four border rows and columns, the step reads the variable
  \<^verbatim>\<open>delta2\<close> (line 507), which is never assigned: it returns no field.
\<close>

theorem evolve_wave_absorbing_bulk:
  assumes "B_COND cfg = BC_ABSORBING" and "0 < i" and "i < NX cfg - 1" and "0 < j"
    and "j < NY cfg - 1" and "xy_in i j = 1"
  shows "evolve_wave cfg intstep intstep1 phi xy_in = Inl Uninitialised"
proof -
  have nx: "2 \<le> NX cfg" and ny: "2 \<le> NY cfg" using assms by auto
  have cell: "e' = Uninitialised"
    if "evolve_cell cfg intstep intstep1 xy_in y z s = Inl e'"
      and "y \<in> set [0..NX cfg - 1]" and "z \<in> set [0..NY cfg - 1]" for y z s e'
    using evolve_cell_error [OF that(1) _ nx ny] that(2,3) by (simp add: in_grid_def)
  have row: "for_each [0..NY cfg - 1] (evolve_cell cfg intstep intstep1 xy_in i) s
             = Inl Uninitialised" for s
  proof (rule for_each_fails [where x = j])
    show "j \<in> set [0..NY cfg - 1]" using assms by simp
    show "evolve_cell cfg intstep intstep1 xy_in i j s = Inl Uninitialised" for s
      using assms by (rule evolve_cell_bulk)
    show "e' = Uninitialised"
      if "z \<in> set [0..NY cfg - 1]" and "evolve_cell cfg intstep intstep1 xy_in i z s = Inl e'"
      for z s e'
      using cell [OF that(2) _ that(1)] assms by simp
  qed
  have "for_each [0..NX cfg - 1]
          (\<lambda>i. for_each [0..NY cfg - 1] (evolve_cell cfg intstep intstep1 xy_in i))
          (phi, \<lambda>i j. None) = Inl Uninitialised"
  proof (rule for_each_fails [where x = i])
    show "i \<in> set [0..NX cfg - 1]" using assms by simp
    show "for_each [0..NY cfg - 1] (evolve_cell cfg intstep intstep1 xy_in i) s
          = Inl Uninitialised" for s
      by (rule row)
    show "e' = Uninitialised"
      if "y \<in> set [0..NX cfg - 1]"
        and "for_each [0..NY cfg - 1] (evolve_cell cfg intstep intstep1 xy_in y) s = Inl e'"
      for y s e'
      using for_each_error [OF that(2)] cell that(1) by blast
  qed
  then show ?thesis by (simp add: evolve_wave_def)
qed

theorem evolve_wave_absorbing_bulk_witness:
  "B_COND absorbing_config = BC_ABSORBING
   \<and> evolve_wave absorbing_config (128/3125) (2/15625) (\<lambda>i j. real_of_int (i * j)) (\<lambda>i j. 1)
     = Inl Uninitialised"
  using evolve_wave_absorbing_bulk [of absorbing_config 1 1 "\<lambda>i j. 1"]
  by (simp add: absorbing_config_def heat_config_def)

text \<open>Two nested counting loops whose body moves a state \<open>F D\<close>, indexed by the set of
  cells done, to \<open>F (insert (i, j) D)\<close>.\<close>

lemma for_each_grid:
  assumes "\<And>i j D. i \<in> set rows \<Longrightarrow> j \<in> set cols \<Longrightarrow> body i j (F D) = Inr (F (insert (i, j) D))"
  shows "for_each rows (\<lambda>i. for_each cols (body i)) (F {}) = Inr (F (set rows \<times> set cols))"
proof -
  have row: "for_each cols (body i) (F D) = Inr (F (D \<union> {i} \<times> set cols))"
    if i: "i \<in> set rows" for i D
  proof -
    let ?I = "\<lambda>S s. s = F (D \<union> {i} \<times> S)"
    have "\<exists>s'. for_each cols (body i) (F D) = Inr s' \<and> ?I ({} \<union> set cols) s'"
    proof (rule for_each_rule [where I = ?I])
      show "?I {} (F D)" by simp
    next
      fix j S s
      assume j: "j \<in> set cols" and s: "?I S s"
      have "D \<union> {i} \<times> insert j S = insert (i, j) (D \<union> {i} \<times> S)" by auto
      then show "\<exists>s'. body i j s = Inr s' \<and> ?I (insert j S) s'"
        using assms [OF i j, of "D \<union> {i} \<times> S"] s by simp
    qed
    then show ?thesis by simp
  qed
  let ?J = "\<lambda>S s. s = F (S \<times> set cols)"
  have "\<exists>s'. for_each rows (\<lambda>i. for_each cols (body i)) (F {}) = Inr s'
          \<and> ?J ({} \<union> set rows) s'"
  proof (rule for_each_rule [where I = ?J])
    show "?J {} (F {})" by simp
  next
    fix i S s
    assume i: "i \<in> set rows" and s: "?J S s"
    have "insert i S \<times> set cols = S \<times> set cols \<union> {i} \<times> set cols" by auto
    then show "\<exists>s'. for_each cols (body i) s = Inr s' \<and> ?J (insert i S) s'"
      using row [OF i, of "S \<times> set cols"] s by simp
  qed
  then show ?thesis by simp
qed

lemma julia_cell_step:
  assumes "in_grid cfg i j"
  shows "julia_cell cfg ij_to_xy xy_in_billiard i j
           (julia_state cfg (status_of ij_to_xy xy_in_billiard) phi xy_in D)
         = Inr (julia_state cfg (status_of ij_to_xy xy_in_billiard) phi xy_in (insert (i, j) D))"
  using assms
  by (auto simp: julia_cell_def julia_state_def status_of_def rd_def wr_def Let_def fun_eq_iff)

lemma init_julia_set_result:
  "init_julia_set cfg ij_to_xy xy_in_billiard phi xy_in
   = Inr (julia_state cfg (status_of ij_to_xy xy_in_billiard) phi xy_in
            ({0..NX cfg - 1} \<times> {0..NY cfg - 1}))"
proof -
  let ?F = "julia_state cfg (status_of ij_to_xy xy_in_billiard) phi xy_in"
  have "for_each [0..NX cfg - 1]
          (\<lambda>i. for_each [0..NY cfg - 1] (julia_cell cfg ij_to_xy xy_in_billiard i)) (?F {})
        = Inr (?F (set [0..NX cfg - 1] \<times> set [0..NY cfg - 1]))"
  proof (rule for_each_grid)
    fix i j D
    assume "i \<in> set [0..NX cfg - 1]" and "j \<in> set [0..NY cfg - 1]"
    then have "in_grid cfg i j" by (simp add: in_grid_def)
    then show "julia_cell cfg ij_to_xy xy_in_billiard i j (?F D) = Inr (?F (insert (i, j) D))"
      by (rule julia_cell_step)
  qed
  moreover have "?F {} = (phi, xy_in)" by (simp add: julia_state_def)
  ultimately show ?thesis by (simp add: init_julia_set_def)
qed

text \<open>
  C10. The Julia-schedule reclassification returns for every input; it sets the status of
  every grid cell to the status \<^verbatim>\<open>xy_in_billiard\<close> computes for it; it sets the
  temperature of every grid cell whose new status is 2 or more to \<^verbatim>\<open>T_IN\<close>; and every
  grid cell whose new status is below 2 (0 or 1) keeps the temperature it held before the
  call.
\<close>

theorem init_julia_set_frame:
  "\<exists>phi' xy_in'.
     init_julia_set cfg ij_to_xy xy_in_billiard phi xy_in = Inr (phi', xy_in')
     \<and> (\<forall>i j. in_grid cfg i j
            \<longrightarrow> xy_in' i j = xy_in_billiard (fst (ij_to_xy i j)) (snd (ij_to_xy i j)))
     \<and> (\<forall>i j. in_grid cfg i j \<and> 2 \<le> xy_in' i j \<longrightarrow> phi' i j = T_IN cfg)
     \<and> (\<forall>i j. in_grid cfg i j \<and> xy_in' i j < 2 \<longrightarrow> phi' i j = phi i j)"
  by (auto simp: init_julia_set_result julia_state_def status_of_def in_grid_def)

theorem init_julia_set_frame_witness:
  "\<exists>phi' xy_in'.
     init_julia_set warm_config demo_ij_to_xy demo_xy_in_billiard demo_phi (\<lambda>i j. 1)
       = Inr (phi', xy_in')
     \<and> xy_in' 0 0 = 1 \<and> phi' 0 0 = 0
     \<and> xy_in' 1 0 = 0 \<and> phi' 1 0 = 1
     \<and> xy_in' 1 1 = 3 \<and> phi' 1 1 = 2"
proof -
  have g: "in_grid warm_config 0 0" "in_grid warm_config 1 0" "in_grid warm_config 1 1"
    by (simp_all add: in_grid_def warm_config_def heat_config_def)
  obtain phi' xy_in' where
    r: "init_julia_set warm_config demo_ij_to_xy demo_xy_in_billiard demo_phi (\<lambda>i j. 1)
        = Inr (phi', xy_in')"
    and s: "\<forall>i j. in_grid warm_config i j
              \<longrightarrow> xy_in' i j = demo_xy_in_billiard (fst (demo_ij_to_xy i j)) (snd (demo_ij_to_xy i j))"
    and h: "\<forall>i j. in_grid warm_config i j \<and> 2 \<le> xy_in' i j \<longrightarrow> phi' i j = T_IN warm_config"
    and k: "\<forall>i j. in_grid warm_config i j \<and> xy_in' i j < 2 \<longrightarrow> phi' i j = demo_phi i j"
    using init_julia_set_frame [of warm_config demo_ij_to_xy demo_xy_in_billiard demo_phi "\<lambda>i j. 1"]
    by blast
  have s0: "xy_in' 0 0 = 1" and s1: "xy_in' 1 0 = 0" and s2: "xy_in' 1 1 = 3"
    using s g by (simp_all add: demo_xy_in_billiard_def demo_ij_to_xy_def)
  have "phi' 0 0 = 0" using k g(1) s0 by (simp add: demo_phi_def)
  moreover have "phi' 1 0 = 1" using k g(2) s1 by (simp add: demo_phi_def)
  moreover have "phi' 1 1 = 2" using h g(3) s2 by (simp add: warm_config_def)
  ultimately show ?thesis using r s0 s1 s2 by blast
qed

text \<open>
  C5 (the claim: a temperature assigned to a cell of status \<open>s\<close>, 2 or more, is
  \<open>T_IN * 0.75 ^ (s - 2)\<close>, in \<open>init_gaussian\<close> and in \<open>init_julia_set\<close>). With \<^verbatim>\<open>T_IN\<close>
  = 2 (the other setting of line 116) and a cell of status 3, \<open>init_gaussian\<close> assigns
  3/2 and \<open>init_julia_set\<close> assigns 2: line 247 assigns \<^verbatim>\<open>T_IN\<close> itself at every depth.
\<close>

theorem init_julia_set_no_decay:
  "T_IN warm_config * (3 / 4) ^ (3 - 2) = 3 / 2
   \<and> (\<exists>phi' xy_in'.
        init_gaussian warm_config demo_ij_to_xy demo_xy_in_billiard (- 1) 0 (1 / 10) 0 (1 / 100)
          demo_phi (\<lambda>i j. 1) = Inr (phi', xy_in')
        \<and> xy_in' 1 1 = 3 \<and> phi' 1 1 = 3 / 2)
   \<and> (\<exists>phi' xy_in'.
        init_julia_set warm_config demo_ij_to_xy demo_xy_in_billiard demo_phi (\<lambda>i j. 1)
          = Inr (phi', xy_in')
        \<and> xy_in' 1 1 = 3 \<and> phi' 1 1 = 2)"
proof (intro conjI)
  show "T_IN warm_config * (3 / 4) ^ (3 - 2) = 3 / 2"
    by (simp add: warm_config_def)
  show "\<exists>phi' xy_in'.
        init_gaussian warm_config demo_ij_to_xy demo_xy_in_billiard (- 1) 0 (1 / 10) 0 (1 / 100)
          demo_phi (\<lambda>i j. 1) = Inr (phi', xy_in')
        \<and> xy_in' 1 1 = 3 \<and> phi' 1 1 = 3 / 2"
    by (simp add: init_gaussian_def gaussian_cell_def warm_config_def heat_config_def
        demo_ij_to_xy_def demo_xy_in_billiard_def rd_def wr_def in_grid_def Let_def upto.simps)
  show "\<exists>phi' xy_in'.
        init_julia_set warm_config demo_ij_to_xy demo_xy_in_billiard demo_phi (\<lambda>i j. 1)
          = Inr (phi', xy_in')
        \<and> xy_in' 1 1 = 3 \<and> phi' 1 1 = 2"
    by (simp add: init_julia_set_result julia_state_def status_of_def warm_config_def
        heat_config_def demo_ij_to_xy_def demo_xy_in_billiard_def)
qed

lemma trace_index_in_grid:
  assumes "0 < NX cfg" and "0 < NY cfg"
  shows "in_grid cfg (fst (trace_index cfg xy_to_ij x1 y1)) (snd (trace_index cfg xy_to_ij x1 y1))"
  using assms by (simp add: trace_index_def in_grid_def Let_def)

lemma trace_step_returns:
  assumes "0 < NX cfg" and "0 < NY cfg"
  shows "\<exists>r. trace_step cfg xy_to_ij xy_in nablax nablay delta p = Inr r"
proof -
  obtain x1 y1 where p: "p = (x1, y1)" by (cases p) auto
  obtain a b where t: "trace_index cfg xy_to_ij x1 y1 = (a, b)"
    by (cases "trace_index cfg xy_to_ij x1 y1") auto
  have "in_grid cfg a b" using trace_index_in_grid [OF assms, of xy_to_ij x1 y1] t by simp
  then show ?thesis
    by (auto simp: p trace_step_def t rd_def Let_def split: prod.splits)
qed

lemma trace_loop_returns:
  assumes "0 < NX cfg" and "0 < NY cfg"
  shows "\<exists>vs. trace_loop cfg xy_to_ij xy_in nablax nablay delta n p = Inr vs \<and> length vs \<le> n"
proof (induction n arbitrary: p)
  case 0
  then show ?case by simp
next
  case (Suc n)
  obtain p' cont where s: "trace_step cfg xy_to_ij xy_in nablax nablay delta p = Inr (p', cont)"
    using trace_step_returns [OF assms, of xy_to_ij xy_in nablax nablay delta p] by auto
  obtain vs where "trace_loop cfg xy_to_ij xy_in nablax nablay delta n p' = Inr vs"
    and "length vs \<le> n"
    using Suc.IH [of p'] by auto
  then show ?case using s by simp
qed

text \<open>
  C9. Every cell the field-line trace reads is a grid cell: the index derived from the
  current point is clamped into \<open>[0, NX-1] x [0, NY-1]\<close> wherever the point lies and
  whatever \<^verbatim>\<open>xy_to_ij\<close> returns for it, and the trace runs to its end without an access
  out of bounds, for every starting point, gradient field, status grid, step length and
  step budget; it hands over at most \<open>nsteps + 1\<close> vertices.
\<close>

theorem draw_field_line_in_bounds:
  assumes "0 < NX cfg" and "0 < NY cfg"
  shows "(\<forall>x1 y1. in_grid cfg (fst (trace_index cfg xy_to_ij x1 y1))
                            (snd (trace_index cfg xy_to_ij x1 y1)))
         \<and> (\<exists>vs. draw_field_line cfg xy_to_ij x y xy_in nablax nablay delta nsteps = Inr vs
                \<and> length vs \<le> nat nsteps + 1)"
proof -
  obtain vs where "trace_loop cfg xy_to_ij xy_in nablax nablay delta (nat nsteps) (x, y) = Inr vs"
    and "length vs \<le> nat nsteps"
    using trace_loop_returns [OF assms] by blast
  then have "\<exists>vs. draw_field_line cfg xy_to_ij x y xy_in nablax nablay delta nsteps = Inr vs
                \<and> length vs \<le> nat nsteps + 1"
    by (simp add: draw_field_line_def)
  then show ?thesis using trace_index_in_grid [OF assms] by blast
qed

theorem draw_field_line_in_bounds_witness:
  "trace_index heat_config far_xy_to_ij 3 4 = (1279, 0)
   \<and> in_grid heat_config 1279 0
   \<and> (\<exists>vs. draw_field_line heat_config far_xy_to_ij 3 4 (\<lambda>i j. 1) (\<lambda>i j. 1) (\<lambda>i j. 0)
             (2 / 10 ^ 5) 100000 = Inr vs \<and> length vs \<le> 100001)"
proof -
  have h: "0 < NX heat_config" "0 < NY heat_config" by (simp_all add: heat_config_def)
  have t: "trace_index heat_config far_xy_to_ij 3 4 = (1279, 0)"
    by (simp add: trace_index_def far_xy_to_ij_def heat_config_def Let_def)
  note r = draw_field_line_in_bounds [OF h, of far_xy_to_ij 3 4 "\<lambda>i j. 1" "\<lambda>i j. 1" "\<lambda>i j. 0"
      "2 / 10 ^ 5" 100000]
  from r have "in_grid heat_config (fst (trace_index heat_config far_xy_to_ij 3 4))
                 (snd (trace_index heat_config far_xy_to_ij 3 4))"
    by blast
  then have "in_grid heat_config 1279 0" by (simp add: t)
  moreover from r have "\<exists>vs. draw_field_line heat_config far_xy_to_ij 3 4 (\<lambda>i j. 1) (\<lambda>i j. 1)
      (\<lambda>i j. 0) (2 / 10 ^ 5) 100000 = Inr vs \<and> length vs \<le> 100001"
    by simp
  ultimately show ?thesis using t by blast
qed

lemma rd1_not_uninitialised: "rd1 n a i \<noteq> Inl Uninitialised"
  by (simp add: rd1_def)

lemma wr1_not_uninitialised: "wr1 n a i v \<noteq> Inl Uninitialised"
  by (simp add: wr1_def)

lemma case_prod_not_error:
  assumes "\<And>a b. f a b \<noteq> Inl e"
  shows "(case p of (a, b) \<Rightarrow> f a b) \<noteq> Inl e"
  using assms by (cases p) simp

lemma not_uninitialised: "m \<noteq> Inl Uninitialised \<Longrightarrow> m = Inl e \<Longrightarrow> e = Out_of_bounds"
  by (cases e) auto

lemma integral_cell_not_uninitialised:
  "integral_cell cfg xy_to_ij md nablax nablay sa i integ \<noteq> Inl Uninitialised"
  unfolding integral_cell_def Let_def
  apply (rule bind_not_error [OF rd1_not_uninitialised])
  apply (rule bind_not_error [OF rd1_not_uninitialised])
  apply (rule case_prod_not_error)
  apply (rule bind_not_error [OF rd_not_uninitialised])
  apply (rule bind_not_error [OF rd_not_uninitialised])
  apply (rule bind_not_error [OF rd1_not_uninitialised])
  apply (simp add: rd1_def wr1_def)
  done

text \<open>What one iteration of the loop of lines 426-432 writes.\<close>

lemma integral_cell_result:
  assumes "integral_cell cfg xy_to_ij md nablax nablay sa i integ = Inr integ'"
    and "\<forall>x y. 0 \<le> md x y" and "\<forall>k. 0 \<le> distance sa k"
  shows "\<exists>t\<ge>0. integ' = integ(i := (if i > 0 then integ (i - 1) + t else t))"
proof -
  obtain ij0 ij1 where ij: "xy_to_ij (linex sa i) (liney sa i) = (ij0, ij1)"
    by (cases "xy_to_ij (linex sa i) (liney sa i)") auto
  let ?t = "md (nablax ij0 ij1) (nablay ij0 ij1) * distance sa i"
  have "0 \<le> ?t" using assms(2,3) by simp
  moreover have "integ' = integ(i := (if i > 0 then integ (i - 1) + ?t else ?t))"
    using assms(1)
    by (simp add: integral_cell_def rd1_def rd_def wr1_def ij Let_def split: if_splits)
  ultimately show ?thesis by blast
qed

lemma integral_cell_nondecreasing:
  assumes "integral_cell cfg xy_to_ij md nablax nablay sa i integ = Inr integ'"
    and "\<forall>x y. 0 \<le> md x y" and "\<forall>k. 0 \<le> distance sa k"
    and "0 \<le> i" and "nondecreasing_below i integ"
  shows "nondecreasing_below (i + 1) integ'"
proof -
  obtain t where t: "0 \<le> t" and r: "integ' = integ(i := (if i > 0 then integ (i - 1) + t else t))"
    using integral_cell_result [OF assms(1,2,3)] by blast
  show ?thesis
    unfolding nondecreasing_below_def
  proof (intro allI impI)
    fix k l
    assume kl: "0 \<le> k \<and> k \<le> l \<and> l < i + 1"
    show "integ' k \<le> integ' l"
    proof (cases "l = i")
      case True
      show ?thesis
      proof (cases "k = i")
        case True
        then show ?thesis using \<open>l = i\<close> by simp
      next
        case False
        then have k: "0 \<le> k" "k \<le> i - 1" "i - 1 < i" using kl True by auto
        then have "integ k \<le> integ (i - 1)"
          using assms(5) unfolding nondecreasing_below_def by blast
        then show ?thesis using r t True False k by simp
      qed
    next
      case False
      then have "0 \<le> k \<and> k \<le> l \<and> l < i" using kl by auto
      then have "integ k \<le> integ l" "k \<noteq> i" "l \<noteq> i"
        using assms(5) unfolding nondecreasing_below_def by auto
      then show ?thesis using r by simp
    qed
  qed
qed

lemma integral_loop_nondecreasing:
  assumes "\<forall>x y. 0 \<le> md x y" and "\<forall>k. 0 \<le> distance sa k"
  shows "for_each [a..b] (integral_cell cfg xy_to_ij md nablax nablay sa) integ = Inr integ'
         \<Longrightarrow> 0 \<le> a \<Longrightarrow> a \<le> b + 1 \<Longrightarrow> nondecreasing_below a integ
         \<Longrightarrow> nondecreasing_below (b + 1) integ'"
proof (induction a b arbitrary: integ rule: upto.induct)
  case (1 a b)
  show ?case
  proof (cases "a \<le> b")
    case False
    then have "a = b + 1" using "1.prems"(3) by simp
    moreover have "integ' = integ" using "1.prems"(1) False by (simp add: upto.simps)
    ultimately show ?thesis using "1.prems"(4) by simp
  next
    case True
    then have u: "[a..b] = a # [a + 1..b]" by (simp add: upto.simps)
    obtain integ1 where
      c: "integral_cell cfg xy_to_ij md nablax nablay sa a integ = Inr integ1"
      and l: "for_each [a + 1..b] (integral_cell cfg xy_to_ij md nablax nablay sa) integ1 = Inr integ'"
      using "1.prems"(1) unfolding u by (auto split: sum.splits)
    have "nondecreasing_below (a + 1) integ1"
      using integral_cell_nondecreasing [OF c assms "1.prems"(2,4)] .
    then show ?thesis
      using "1.IH" [OF True l] "1.prems"(2) True by simp
  qed
qed

text \<open>Line 444 on a target that no cell from \<open>i\<close> on exceeds: the index runs to the size
  of the arrays.\<close>

lemma seek_seed_runs_off:
  "0 \<le> i \<Longrightarrow> i \<le> m \<Longrightarrow> (\<forall>k. i \<le> k \<and> k < m \<longrightarrow> integ k \<le> target)
   \<Longrightarrow> seek_seed m integ target i = Inr m"
proof (induction m integ target i rule: seek_seed.induct)
  case (1 m integ target i)
  have r: "rd1 (m + 1) integ i = Inr (integ i)" using "1.prems"(1,2) by (simp add: rd1_def)
  show ?case
  proof (cases "i < m")
    case True
    then have "integ i \<le> target" using "1.prems"(3) by simp
    moreover have "seek_seed m integ target (i + 1) = Inr m"
      using "1.IH" [OF r] True \<open>integ i \<le> target\<close> "1.prems" by simp
    ultimately show ?thesis
      using True r by (subst seek_seed.simps) simp
  next
    case False
    then have "i = m" using "1.prems"(2) by simp
    then show ?thesis using r by (subst seek_seed.simps) simp
  qed
qed

lemma seek_seed_not_uninitialised: "seek_seed m integ target i \<noteq> Inl Uninitialised"
proof (induction m integ target i rule: seek_seed.induct)
  case (1 m integ target i)
  show ?case
  proof (cases "rd1 (m + 1) integ i")
    case (Inl e)
    then have "e = Out_of_bounds" by (simp add: rd1_def split: if_splits)
    then show ?thesis using Inl by (subst seek_seed.simps) simp
  next
    case (Inr v)
    then show ?thesis
      using "1.IH" [OF Inr] by (subst seek_seed.simps) simp
  qed
qed

lemma seek_seed_out_of_range:
  "i < 0 \<or> m < i \<Longrightarrow> seek_seed m integ target i = Inl Out_of_bounds"
  by (subst seek_seed.simps) (auto simp: rd1_def)

lemma draw_field_line_returns:
  assumes "0 < NX cfg" and "0 < NY cfg"
  shows "\<exists>vs. draw_field_line cfg xy_to_ij x y xy_in nablax nablay delta nsteps = Inr vs"
proof -
  obtain vs where "trace_loop cfg xy_to_ij xy_in nablax nablay delta (nat nsteps) (x, y) = Inr vs"
    using trace_loop_returns [OF assms] by blast
  then show ?thesis by (simp add: draw_field_line_def)
qed

lemma seed_step_not_uninitialised:
  assumes "0 < NX cfg" and "0 < NY cfg"
  shows "seed_step cfg xy_to_ij xy_in nablax nablay sa integ deltaintens j s \<noteq> Inl Uninitialised"
proof -
  obtain i c ls where s: "s = (i, c, ls)" by (cases s) auto
  have d: "draw_field_line cfg xy_to_ij x y xy_in nablax nablay delta nsteps \<noteq> Inl Uninitialised"
    for x y delta nsteps
    using draw_field_line_returns [OF assms, of xy_to_ij x y xy_in nablax nablay delta nsteps]
    by auto
  show ?thesis
    unfolding s seed_step_def prod.case
    apply (rule bind_not_error [OF seek_seed_not_uninitialised])
    apply (rule bind_not_error [OF rd1_not_uninitialised])
    apply (rule bind_not_error [OF rd1_not_uninitialised])
    apply (rule bind_not_error [OF d])
    apply simp
    done
qed

text \<open>Lines 444-446 for a target that no cell of \<^verbatim>\<open>integral\<close> exceeds: whatever the
  index was, \<^verbatim>\<open>linex[i]\<close> is read at the size of the array, or \<^verbatim>\<open>integral[i]\<close>
  outside its range.\<close>

lemma seed_step_runs_off:
  assumes "\<forall>k. 0 \<le> k \<and> k < n_samples cfg \<longrightarrow> integ k \<le> real_of_int j * deltaintens"
  shows "seed_step cfg xy_to_ij xy_in nablax nablay sa integ deltaintens j s = Inl Out_of_bounds"
proof -
  obtain i c ls where s: "s = (i, c, ls)" by (cases s) auto
  show ?thesis
  proof (cases "i < 0 \<or> n_samples cfg < i")
    case True
    then show ?thesis by (simp add: s seed_step_def seek_seed_out_of_range)
  next
    case False
    then have "seek_seed (n_samples cfg) integ (real_of_int j * deltaintens) i = Inr (n_samples cfg)"
      using assms by (intro seek_seed_runs_off) auto
    then show ?thesis by (simp add: s seed_step_def rd1_def)
  qed
qed

text \<open>
  C6 (the claim: the pass draws \<^verbatim>\<open>N_FIELD_LINES\<close> + 1 lines, each seed index within the
  bounds of the seed arrays). The cumulative sums of \<^verbatim>\<open>integral\<close> never decrease, and
  the target of the last line, \<^verbatim>\<open>N_FIELD_LINES * deltaintens\<close>, is the last sum; so the
  loop of line 444 runs \<open>i\<close> to \<^verbatim>\<open>N_FIELD_LINES*FIELD_LINE_FACTOR\<close> at the latest for the
  last line, and line 446 reads \<^verbatim>\<open>linex[i]\<close> one cell past the array. In exact arithmetic
  this holds for every gradient field (\<^verbatim>\<open>module2\<close> and the arc lengths being
  non-negative); for a gradient field that is zero everywhere every sum and every target
  is 0 and the overrun happens from the first line of the loop on.
\<close>

theorem draw_field_lines_out_of_bounds:
  assumes "0 < NX cfg" and "0 < NY cfg"
    and "1 \<le> N_FIELD_LINES cfg" and "1 \<le> FIELD_LINE_FACTOR cfg"
    and "\<forall>x y. 0 \<le> module2 x y" and "\<forall>k. 0 \<le> distance sa k"
  shows "draw_field_lines cfg xy_to_ij module2 xy_in nablax nablay sa = Inl Out_of_bounds"
proof -
  let ?m = "n_samples cfg"
  let ?n = "N_FIELD_LINES cfg"
  have "1 * 1 \<le> ?n * FIELD_LINE_FACTOR cfg"
    using assms(3,4) by (intro mult_mono) simp_all
  then have m: "1 \<le> ?m" by (simp add: n_samples_def)
  let ?loop = "for_each [0..?m - 1] (integral_cell cfg xy_to_ij module2 nablax nablay sa) (integral sa)"
  show ?thesis
  proof (cases ?loop)
    case (Inl e)
    then obtain k t where "integral_cell cfg xy_to_ij module2 nablax nablay sa k t = Inl e"
      using for_each_error [OF Inl] by blast
    then have "e = Out_of_bounds"
      using integral_cell_not_uninitialised not_uninitialised by blast
    then show ?thesis using Inl by (simp add: draw_field_lines_def)
  next
    case (Inr integ)
    have "nondecreasing_below 0 (integral sa)" by (simp add: nondecreasing_below_def)
    then have "nondecreasing_below (?m - 1 + 1) integ"
      using integral_loop_nondecreasing [OF assms(5,6) Inr] m by simp
    then have le: "\<forall>k. 0 \<le> k \<and> k < ?m \<longrightarrow> integ k \<le> integ (?m - 1)"
      unfolding nondecreasing_below_def by auto
    define deltaintens where "deltaintens = integ (?m - 1) / real_of_int ?n"
    have tgt: "real_of_int ?n * deltaintens = integ (?m - 1)"
      using assms(3) by (simp add: deltaintens_def)
    have last: "seed_step cfg xy_to_ij xy_in nablax nablay sa integ deltaintens ?n s = Inl Out_of_bounds"
      for s
      using le by (intro seed_step_runs_off) (simp add: tgt)
    have seeds: "for_each [1..?n] (seed_step cfg xy_to_ij xy_in nablax nablay sa integ deltaintens) s
                 = Inl Out_of_bounds" for s
    proof (rule for_each_fails [where x = ?n])
      show "?n \<in> set [1..?n]" using assms(3) by simp
      show "seed_step cfg xy_to_ij xy_in nablax nablay sa integ deltaintens ?n s = Inl Out_of_bounds"
        for s by (rule last)
      show "e' = Out_of_bounds"
        if "seed_step cfg xy_to_ij xy_in nablax nablay sa integ deltaintens y s = Inl e'" for y s e'
        using seed_step_not_uninitialised [OF assms(1,2)] that not_uninitialised by blast
    qed
    obtain l0 where l0: "draw_field_line cfg xy_to_ij (linex sa 0) (liney sa 0) xy_in nablax nablay
                           (2 / 10 ^ 5) 100000 = Inr l0"
      using draw_field_line_returns [OF assms(1,2)] by blast
    show ?thesis
      using m Inr l0 seeds
      by (simp add: draw_field_lines_def rd1_def Let_def deltaintens_def)
  qed
qed

theorem draw_field_lines_out_of_bounds_witness:
  "n_samples heat_config = 20000
   \<and> draw_field_lines heat_config centre_xy_to_ij norm_module2 (\<lambda>i j. 1) (\<lambda>i j. 0) (\<lambda>i j. 0)
       zero_seed_arrays = Inl Out_of_bounds"
proof -
  have "draw_field_lines heat_config centre_xy_to_ij norm_module2 (\<lambda>i j. 1) (\<lambda>i j. 0) (\<lambda>i j. 0)
          zero_seed_arrays = Inl Out_of_bounds"
    by (rule draw_field_lines_out_of_bounds)
      (simp_all add: heat_config_def norm_module2_def zero_seed_arrays_def)
  then show ?thesis by (simp add: n_samples_def heat_config_def)
qed

lemma variance_cell_zero:
  assumes "in_grid cfg i j" and "phi i j = 0"
  shows "\<exists>n'. variance_cell cfg phi xy_in i j (n, 0) = Inr (n', 0)"
  using assms by (simp add: variance_cell_def rd_def)

lemma variance_loops_zero:
  assumes "\<forall>i j. 1 \<le> i \<and> 1 \<le> j \<longrightarrow> phi i j = 0"
  shows "\<exists>n. for_each [1..NX cfg - 1] (\<lambda>i. for_each [1..NY cfg - 1] (variance_cell cfg phi xy_in i))
               (0, 0) = Inr (n, 0)"
proof -
  let ?I = "\<lambda>(S :: int set) (s :: int \<times> real). snd s = 0"
  have row: "\<exists>s'. for_each [1..NY cfg - 1] (variance_cell cfg phi xy_in i) s = Inr s' \<and> snd s' = 0"
    if i: "i \<in> set [1..NX cfg - 1]" and s: "snd s = 0" for i s
  proof -
    have "\<exists>s'. for_each [1..NY cfg - 1] (variance_cell cfg phi xy_in i) s = Inr s'
            \<and> ?I ({} \<union> set [1..NY cfg - 1]) s'"
    proof (rule for_each_rule [where I = ?I])
      show "?I {} s" using s by simp
    next
      fix j S t
      assume j: "j \<in> set [1..NY cfg - 1]" and t: "?I S t"
      have g: "in_grid cfg i j" using i j by (simp add: in_grid_def)
      have z: "phi i j = 0" using assms i j by simp
      obtain n where "t = (n, 0)" using t by (cases t) auto
      then show "\<exists>s'. variance_cell cfg phi xy_in i j t = Inr s' \<and> ?I (insert j S) s'"
        using variance_cell_zero [of cfg i j phi xy_in n] g z by auto
    qed
    then show ?thesis by simp
  qed
  have "\<exists>s'. for_each [1..NX cfg - 1] (\<lambda>i. for_each [1..NY cfg - 1] (variance_cell cfg phi xy_in i))
               (0, 0) = Inr s' \<and> ?I ({} \<union> set [1..NX cfg - 1]) s'"
  proof (rule for_each_rule [where I = ?I])
    show "?I {} (0, 0)" by simp
  next
    fix i S t
    assume "i \<in> set [1..NX cfg - 1]" and "?I S t"
    then show "\<exists>s'. for_each [1..NY cfg - 1] (variance_cell cfg phi xy_in i) t = Inr s'
                 \<and> ?I (insert i S) s'"
      using row [of i t] by simp
  qed
  then obtain s' where "for_each [1..NX cfg - 1]
      (\<lambda>i. for_each [1..NY cfg - 1] (variance_cell cfg phi xy_in i)) (0, 0) = Inr s'"
    and "snd s' = 0" by auto
  then show ?thesis by (cases s') auto
qed

text \<open>
  C4 (the claim: the mean of the squares over all cells of status other than 0, every such
  cell of the grid contributing). The loops of lines 565-566 start at index 1: no cell of
  row 0 or of column 0 is read. So a field that is zero off that row and that column has
  variance 0, whatever it holds on them and whatever their status.
\<close>

theorem compute_variance_skips_row_and_column_0:
  assumes "\<forall>i j. 1 \<le> i \<and> 1 \<le> j \<longrightarrow> phi i j = 0"
  shows "compute_variance cfg phi xy_in = Inr 0"
proof -
  obtain n where "for_each [1..NX cfg - 1]
      (\<lambda>i. for_each [1..NY cfg - 1] (variance_cell cfg phi xy_in i)) (0, 0) = Inr (n, 0)"
    using variance_loops_zero [OF assms] by blast
  then show ?thesis by (simp add: compute_variance_def Let_def)
qed

theorem compute_variance_skips_row_and_column_0_witness:
  "rim_phi 0 0 = 3 \<and> rim_phi 0 5 = 3 \<and> rim_phi 5 0 = 3
   \<and> compute_variance heat_config rim_phi (\<lambda>i j. 1) = Inr 0"
proof -
  have "\<forall>i j. 1 \<le> i \<and> 1 \<le> j \<longrightarrow> rim_phi i j = 0"
    by (auto simp: rim_phi_def)
  then have "compute_variance heat_config rim_phi (\<lambda>i j. 1) = Inr 0"
    by (rule compute_variance_skips_row_and_column_0)
  then show ?thesis by (simp add: rim_phi_def)
qed

lemma upto_from_0: "0 \<le> n \<Longrightarrow> [0..n] = 0 # [1..n]"
  by (simp add: upto.simps)

text \<open>The first loops visit the cell (0, 0) first, on the field as it was passed in, and
  no later cell writes \<^verbatim>\<open>newphi[0][0]\<close>.\<close>

lemma compute_loops_first_cell:
  assumes l: "for_each [0..NX cfg - 1] (\<lambda>i. for_each [0..NY cfg - 1] (evolve_cell cfg a b xy_in i))
                (phi, \<lambda>i j. None) = Inr (p, n)"
    and g: "in_grid cfg 0 0" and s: "xy_in 0 0 = 1"
    and v: "new_value cfg a b phi 0 0 = Inr (Some v0)"
  shows "n 0 0 = Some v0"
proof -
  let ?P = "\<lambda>t :: real grid \<times> real option grid. snd t 0 0 = Some v0"
  have rows: "[0..NX cfg - 1] = 0 # [1..NX cfg - 1]" and cols: "[0..NY cfg - 1] = 0 # [1..NY cfg - 1]"
    using g by (simp_all add: in_grid_def upto_from_0)
  have cell: "?P t'" if "evolve_cell cfg a b xy_in i j t = Inr t'" and "?P t" and "(0, 0) \<noteq> (i, j)"
    for i j t t'
    using evolve_cell_newphi_frame [of cfg a b xy_in i j "fst t" "snd t" "fst t'" "snd t'" 0 0] that
    by simp
  obtain s1 where r0: "for_each [0..NY cfg - 1] (evolve_cell cfg a b xy_in 0) (phi, \<lambda>i j. None) = Inr s1"
    and rest: "for_each [1..NX cfg - 1] (\<lambda>i. for_each [0..NY cfg - 1] (evolve_cell cfg a b xy_in i)) s1
               = Inr (p, n)"
    using l unfolding rows by (auto split: sum.splits)
  obtain s0 where c0: "evolve_cell cfg a b xy_in 0 0 (phi, \<lambda>i j. None) = Inr s0"
    and r0': "for_each [1..NY cfg - 1] (evolve_cell cfg a b xy_in 0) s0 = Inr s1"
    using r0 unfolding cols by (auto split: sum.splits)
  let ?n = "(\<lambda>i j. None)(0 := ((\<lambda>j. None)(0 := Some v0)))"
  obtain p0 n0 where s0: "s0 = (p0, n0)" by (cases s0) auto
  have "floor_clamp cfg 0 0 (phi, ?n) = Inr (p0, n0)"
    using c0 g s v by (simp add: s0 evolve_cell_def rd_def wr_def)
  then have "n0 = ?n" using floor_clamp_frame by blast
  then have "?P s0" by (simp add: s0)
  have "?P s1"
    using r0' \<open>?P s0\<close>
  proof (rule for_each_inv [where P = ?P])
    fix j t t'
    assume "j \<in> set [1..NY cfg - 1]" and "?P t" and "evolve_cell cfg a b xy_in 0 j t = Inr t'"
    then show "?P t'" using cell [of 0 j t t'] by simp
  qed
  have "?P (p, n)"
    using rest \<open>?P s1\<close>
  proof (rule for_each_inv [where P = ?P])
    fix i t t'
    assume i: "i \<in> set [1..NX cfg - 1]" and t: "?P t"
      and r: "for_each [0..NY cfg - 1] (evolve_cell cfg a b xy_in i) t = Inr t'"
    show "?P t'"
      using r t
    proof (rule for_each_inv [where P = ?P])
      fix j u u'
      assume "?P u" and "evolve_cell cfg a b xy_in i j u = Inr u'"
      then show "?P u'" using cell [of i j u u'] i by simp
    qed
  qed
  then show ?thesis by simp
qed

text \<open>
  C8 (the claim: with \<^verbatim>\<open>FLOOR\<close> set, every updated cell lies within
  \<open>[-VMAX, VMAX]\<close> after a step). Whether \<^verbatim>\<open>FLOOR\<close> is set or not, the step leaves in
  the cell (0, 0), when its status is 1, the value of the stencil, unclamped: the clamp of
  lines 534-535 assigns to \<^verbatim>\<open>phi[i][j]\<close>, and line 543 then overwrites that cell with
  \<^verbatim>\<open>newphi[i][j]\<close>. So on the shipped grid with \<^verbatim>\<open>FLOOR\<close> set, \<^verbatim>\<open>VMAX\<close> = 10 and
  a field of 100 everywhere, the cell still holds 100 after the step.
\<close>

theorem evolve_wave_clamp_lost:
  assumes "B_COND cfg \<noteq> BC_ABSORBING" and "in_grid cfg 0 0" and "xy_in 0 0 = 1"
    and "new_value cfg intstep intstep1 phi 0 0 = Inr (Some v)"
  shows "\<exists>phi'. evolve_wave cfg intstep intstep1 phi xy_in = Inr phi' \<and> phi' 0 0 = v"
proof -
  obtain p n where l: "for_each [0..NX cfg - 1]
        (\<lambda>i. for_each [0..NY cfg - 1] (evolve_cell cfg intstep intstep1 xy_in i))
        (phi, \<lambda>i j. None) = Inr (p, n)"
    and h: "\<forall>i j. in_grid cfg i j \<and> xy_in i j = 1 \<longrightarrow> n i j \<noteq> None"
    using compute_loops_return [OF assms(1)] by blast
  have n: "n 0 0 = Some v"
    using compute_loops_first_cell [OF l assms(2,3,4)] .
  obtain p' where c: "for_each [0..NX cfg - 1]
        (\<lambda>i. for_each [0..NY cfg - 1] (commit_cell cfg xy_in n i)) p = Inr p'"
    and k: "\<forall>i j. in_grid cfg i j \<and> xy_in i j = 1 \<longrightarrow> n i j = Some (p' i j)"
    using commit_loops_return [OF h] by blast
  have "p' 0 0 = v" using k assms(2,3) n by auto
  moreover have "evolve_wave cfg intstep intstep1 phi xy_in = Inr p'"
    using l c by (simp add: evolve_wave_def)
  ultimately show ?thesis by blast
qed

theorem evolve_wave_clamp_lost_witness:
  "FLOOR clamp_config \<and> VMAX clamp_config = 10 \<and> NX clamp_config = 1280 \<and> NY clamp_config = 720
   \<and> (\<exists>phi'. evolve_wave clamp_config (128/3125) (2/15625) (\<lambda>i j. 100) (\<lambda>i j. 1) = Inr phi'
          \<and> phi' 0 0 = 100)"
proof -
  have b: "B_COND clamp_config \<noteq> BC_ABSORBING" and g: "in_grid clamp_config 0 0"
    by (simp_all add: clamp_config_def heat_config_def in_grid_def)
  have "new_value clamp_config (128/3125) (2/15625) (\<lambda>i j. 100) 0 0 = Inr (Some 100)"
    using b g by (rule new_value_uniform) simp
  then have "\<exists>phi'. evolve_wave clamp_config (128/3125) (2/15625) (\<lambda>i j. 100) (\<lambda>i j. 1) = Inr phi'
          \<and> phi' 0 0 = 100"
    using evolve_wave_clamp_lost [OF b g, of "\<lambda>i j. 1" "128/3125" "2/15625" "\<lambda>i j. 100" 100]
    by simp
  then show ?thesis by (simp add: clamp_config_def heat_config_def)
qed

end
